theory Spec2Isabelle
  imports Complex_Main "HOL-Library.Multiset"
begin

section \<open>Expense records and the two stores\<close>

text \<open>
  A row of the live table \<open>costs\<close> (Prisma model \<open>Cost\<close>, interface \<open>ExpenseData\<close>).
  The amount is a Prisma decimal; the archival code never computes with it, so its
  type is left as the parameter \<open>'d\<close>. Timestamps are JavaScript dates, modelled as
  integers (milliseconds since the epoch). The field \<open>id\<close> is called \<open>cost_id\<close>,
  since \<open>id\<close> is the identity function of HOL.
\<close>

type_synonym timestamp = int

record 'd Cost =
  cost_id :: int
  category :: string
  amount :: 'd
  month :: int
  year :: int
  createdAt :: timestamp
  updatedAt :: timestamp

text \<open>
  A row of the archive table \<open>costs_archive\<close>: the seven columns of the live row and
  \<open>archived_at\<close>.
\<close>

type_synonym 'd ArchivedCost = "'d Cost \<times> timestamp"

record 'd store =
  live :: "'d Cost list"
  archive :: "'d ArchivedCost list"

text \<open>
  Every call that \<open>ArchiveService\<close> makes to the database is a store operation. A run
  records the operations it attempts, in order, and the environment decides through the
  predicate \<open>fails\<close> which of them raise; the service rethrows whatever the store raises.
\<close>

datatype 'd store_op =
    EnsureArchiveTable
  | CountOld
  | FindOld nat nat
  | InsertArchive "'d Cost list"
  | DeleteOld
  | SelectArchive
  | UpsertCost int

datatype 'd error = StoreError "'d store_op"

record ArchiveResult =
  archivedCount :: nat
  deletedCount :: nat
  cutoffDate :: timestamp

section \<open>ArchiveService.archiveOldData\<close>

text \<open>The filter \<open>where: { createdAt: { lt: cutoffDate } }\<close>.\<close>

definition olderThan :: "timestamp \<Rightarrow> 'd Cost list \<Rightarrow> 'd Cost list" where
  "olderThan cutoff rs = filter (\<lambda>r. createdAt r < cutoff) rs"

text \<open>
  \<open>prisma.cost.findMany\<close> with that filter, \<open>orderBy: { createdAt: 'asc' }\<close>,
  \<open>skip\<close> and \<open>take\<close>. Every batch is a query of its own, and the order of rows with
  equal \<open>createdAt\<close> is the database's choice in each: \<open>pageOrder skip rows\<close> is the
  order in which the query with that \<open>skip\<close> sees the rows that pass the filter.
\<close>

definition findOld ::
  "(nat \<Rightarrow> 'd Cost list \<Rightarrow> 'd Cost list) \<Rightarrow> timestamp \<Rightarrow> nat \<Rightarrow> nat \<Rightarrow> 'd Cost list \<Rightarrow> 'd Cost list" where
  "findOld pageOrder cutoff skip tk rs = take tk (drop skip (pageOrder skip (olderThan cutoff rs)))"

text \<open>What every such order has: it holds the same rows, by \<open>createdAt\<close>.\<close>

definition byCreatedAt :: "(nat \<Rightarrow> 'd Cost list \<Rightarrow> 'd Cost list) \<Rightarrow> bool" where
  "byCreatedAt pageOrder =
     (\<forall>skip rows. sorted (map createdAt (pageOrder skip rows)) \<and>
                  mset (pageOrder skip rows) = mset rows)"

text \<open>
  Two such orders: rows with equal \<open>createdAt\<close> in table order in every query, and in
  table order in the first query and in the opposite order in the later ones.
\<close>

definition tableOrder :: "nat \<Rightarrow> 'd Cost list \<Rightarrow> 'd Cost list" where
  "tableOrder skip rows = sort_key createdAt rows"


text \<open>
  The statement \<open>INSERT INTO costs_archive ... VALUES ... ON CONFLICT (id) DO NOTHING\<close>:
  rows are taken in order, and a row whose id is already in the table is skipped.
\<close>

definition archivedIds :: "'d ArchivedCost list \<Rightarrow> int list" where
  "archivedIds arch = map (\<lambda>a. cost_id (fst a)) arch"

fun insertIgnore :: "timestamp \<Rightarrow> 'd Cost list \<Rightarrow> 'd ArchivedCost list \<Rightarrow> 'd ArchivedCost list" where
  "insertIgnore now [] arch = arch"
| "insertIgnore now (r # rs) arch =
     insertIgnore now rs
       (if cost_id r \<in> set (archivedIds arch) then arch else arch @ [(r, now)])"

text \<open>\<open>archiveBatch\<close>: nothing for an empty batch, otherwise one insert statement.\<close>

definition archiveBatch ::
  "('d store_op \<Rightarrow> bool) \<Rightarrow> timestamp \<Rightarrow> 'd Cost list \<Rightarrow> 'd ArchivedCost list
     \<Rightarrow> 'd error + 'd ArchivedCost list" where
  "archiveBatch fails now records arch =
     (if records = [] then Inr arch
      else if fails (InsertArchive records) then Inl (StoreError (InsertArchive records))
      else Inr (insertIgnore now records arch))"

text \<open>
  The \<open>while (offset < recordsToArchive)\<close> loop. The result is the outcome (the error,
  or \<open>archivedCount\<close>), the store, and the store operations attempted.
\<close>

function archiveLoop ::
  "('d store_op \<Rightarrow> bool) \<Rightarrow> (nat \<Rightarrow> 'd Cost list \<Rightarrow> 'd Cost list) \<Rightarrow> timestamp \<Rightarrow> timestamp \<Rightarrow> nat \<Rightarrow> nat \<Rightarrow> 'd store \<Rightarrow> nat \<Rightarrow> nat
     \<Rightarrow> ('d error + nat) \<times> 'd store \<times> 'd store_op list" where
  "archiveLoop fails pageOrder now cutoff batchSize recordsToArchive st archivedCnt offset =
     (if offset < recordsToArchive then
        (if fails (FindOld offset batchSize)
         then (Inl (StoreError (FindOld offset batchSize)), st, [FindOld offset batchSize])
         else
           (if findOld pageOrder cutoff offset batchSize (live st) = []
            then (Inr archivedCnt, st, [FindOld offset batchSize])
            else
              (case archiveBatch fails now (findOld pageOrder cutoff offset batchSize (live st)) (archive st) of
                 Inl e \<Rightarrow>
                   (Inl e, st,
                    [FindOld offset batchSize,
                     InsertArchive (findOld pageOrder cutoff offset batchSize (live st))])
               | Inr arch \<Rightarrow>
                   (case archiveLoop fails pageOrder now cutoff batchSize recordsToArchive
                           (st\<lparr>archive := arch\<rparr>)
                           (archivedCnt + length (findOld pageOrder cutoff offset batchSize (live st)))
                           (offset + batchSize) of
                      (out, st', tr) \<Rightarrow>
                        (out, st',
                         FindOld offset batchSize
                           # InsertArchive (findOld pageOrder cutoff offset batchSize (live st)) # tr)))))
      else (Inr archivedCnt, st, []))"
  by pat_completeness auto
termination
proof (relation "measure (\<lambda>(fails, pageOrder, now, cutoff, batchSize, recordsToArchive, st, archivedCnt, offset).
                     recordsToArchive - offset)")
  show "wf (measure (\<lambda>(fails :: 'd store_op \<Rightarrow> bool,
                        pageOrder :: nat \<Rightarrow> 'd Cost list \<Rightarrow> 'd Cost list, now :: timestamp, cutoff :: timestamp,
                        batchSize :: nat, recordsToArchive :: nat, st :: 'd store,
                        archivedCnt :: nat, offset :: nat). recordsToArchive - offset))"
    by simp
next
  fix fails :: "'d store_op \<Rightarrow> bool" and pageOrder :: "nat \<Rightarrow> 'd Cost list \<Rightarrow> 'd Cost list"
    and now cutoff :: timestamp
    and batchSize recordsToArchive archivedCnt offset :: nat and st :: "'d store"
    and arch :: "'d ArchivedCost list"
  assume lt: "offset < recordsToArchive"
    and ne: "findOld pageOrder cutoff offset batchSize (live st) \<noteq> []"
  from ne have "batchSize \<noteq> 0"
    by (auto simp: findOld_def)
  with lt show "((fails, pageOrder, now, cutoff, batchSize, recordsToArchive, st\<lparr>archive := arch\<rparr>,
                  archivedCnt + length (findOld pageOrder cutoff offset batchSize (live st)),
                  offset + batchSize),
                 (fails, pageOrder, now, cutoff, batchSize, recordsToArchive, st, archivedCnt, offset))
                \<in> measure (\<lambda>(fails, pageOrder, now, cutoff, batchSize, recordsToArchive, st, archivedCnt, offset).
                     recordsToArchive - offset)"
    by simp
qed

declare archiveLoop.simps [simp del]

text \<open>
  \<open>archiveOldData\<close>. The cutoff date (\<open>new Date()\<close> moved back by \<open>retentionYears\<close>
  years) and the time of the run are inputs.
\<close>

definition archiveOldData ::
  "('d store_op \<Rightarrow> bool) \<Rightarrow> (nat \<Rightarrow> 'd Cost list \<Rightarrow> 'd Cost list) \<Rightarrow> timestamp \<Rightarrow> timestamp \<Rightarrow> nat \<Rightarrow> 'd store
     \<Rightarrow> ('d error + ArchiveResult) \<times> 'd store \<times> 'd store_op list" where
  "archiveOldData fails pageOrder now cutoff batchSize st =
     (if fails EnsureArchiveTable
      then (Inl (StoreError EnsureArchiveTable), st, [EnsureArchiveTable])
      else if fails CountOld
      then (Inl (StoreError CountOld), st, [EnsureArchiveTable, CountOld])
      else if length (olderThan cutoff (live st)) = 0
      then (Inr \<lparr>archivedCount = 0, deletedCount = 0, cutoffDate = cutoff\<rparr>, st,
            [EnsureArchiveTable, CountOld])
      else
        (case archiveLoop fails pageOrder now cutoff batchSize (length (olderThan cutoff (live st))) st 0 0 of
           (Inl e, st', tr) \<Rightarrow> (Inl e, st', EnsureArchiveTable # CountOld # tr)
         | (Inr archivedCnt, st', tr) \<Rightarrow>
             (if fails DeleteOld
              then (Inl (StoreError DeleteOld), st',
                    EnsureArchiveTable # CountOld # tr @ [DeleteOld])
              else
                (Inr \<lparr>archivedCount = archivedCnt,
                      deletedCount = length (olderThan cutoff (live st')),
                      cutoffDate = cutoff\<rparr>,
                 st'\<lparr>live := filter (\<lambda>r. \<not> createdAt r < cutoff) (live st')\<rparr>,
                 EnsureArchiveTable # CountOld # tr @ [DeleteOld]))))"

section \<open>ArchiveService.restoreFromArchive\<close>

text \<open>
  \<open>prisma.cost.upsert\<close> with \<open>where: { id }\<close>: the \<open>update\<close> branch writes category,
  amount, month, year and \<open>updatedAt = new Date()\<close>; the \<open>create\<close> branch writes the
  seven columns of the archive row.
\<close>

fun upsert :: "timestamp \<Rightarrow> 'd Cost \<Rightarrow> 'd Cost list \<Rightarrow> 'd Cost list" where
  "upsert now a [] =
     [\<lparr>cost_id = cost_id a, category = category a, amount = amount a, month = month a,
       year = year a, createdAt = createdAt a, updatedAt = updatedAt a\<rparr>]"
| "upsert now a (r # rs) =
     (if cost_id r = cost_id a
      then r\<lparr>category := category a, amount := amount a, month := month a, year := year a,
             updatedAt := now\<rparr> # rs
      else r # upsert now a rs)"

fun restoreLoop ::
  "('d store_op \<Rightarrow> bool) \<Rightarrow> timestamp \<Rightarrow> 'd Cost list \<Rightarrow> 'd Cost list
     \<Rightarrow> ('d error + unit) \<times> 'd Cost list \<times> 'd store_op list" where
  "restoreLoop fails now [] lv = (Inr (), lv, [])"
| "restoreLoop fails now (a # as) lv =
     (if fails (UpsertCost (cost_id a))
      then (Inl (StoreError (UpsertCost (cost_id a))), lv, [UpsertCost (cost_id a)])
      else
        (case restoreLoop fails now as (upsert now a lv) of
           (out, lv', tr) \<Rightarrow> (out, lv', UpsertCost (cost_id a) # tr)))"

text \<open>The query \<open>WHERE created_at >= startDate AND created_at <= endDate\<close>.\<close>

definition selectArchive :: "timestamp \<Rightarrow> timestamp \<Rightarrow> 'd ArchivedCost list \<Rightarrow> 'd Cost list" where
  "selectArchive startDate endDate arch =
     map fst (filter (\<lambda>a. startDate \<le> createdAt (fst a) \<and> createdAt (fst a) \<le> endDate) arch)"

definition restoreFromArchive ::
  "('d store_op \<Rightarrow> bool) \<Rightarrow> timestamp \<Rightarrow> timestamp \<Rightarrow> timestamp \<Rightarrow> 'd store
     \<Rightarrow> ('d error + nat) \<times> 'd store \<times> 'd store_op list" where
  "restoreFromArchive fails now startDate endDate st =
     (if fails SelectArchive
      then (Inl (StoreError SelectArchive), st, [SelectArchive])
      else if length (selectArchive startDate endDate (archive st)) = 0
      then (Inr 0, st, [SelectArchive])
      else
        (case restoreLoop fails now (selectArchive startDate endDate (archive st)) (live st) of
           (Inl e, lv, tr) \<Rightarrow> (Inl e, st\<lparr>live := lv\<rparr>, SelectArchive # tr)
         | (Inr u, lv, tr) \<Rightarrow>
             (Inr (length (selectArchive startDate endDate (archive st))), st\<lparr>live := lv\<rparr>,
              SelectArchive # tr)))"

text \<open>
  The handler of \<open>POST /archive/restore\<close>. A date of the request body is absent (or
  otherwise falsy), or \<open>new Date\<close> cannot read it, or it is a date. The handler answers
  400 for the first two, calls \<open>restoreFromArchive\<close> on two dates, and answers 500
  when that call raises.
\<close>

datatype body_date = Absent | Unparsable | Parsed timestamp

datatype restore_response =
    Status200 nat timestamp timestamp
  | Status400 string
  | Status500 string

definition restoreRoute ::
  "('d store_op \<Rightarrow> bool) \<Rightarrow> timestamp \<Rightarrow> body_date \<Rightarrow> body_date \<Rightarrow> 'd store
     \<Rightarrow> restore_response \<times> 'd store \<times> 'd store_op list" where
  "restoreRoute fails now startDate endDate st =
     (if startDate = Absent \<or> endDate = Absent
      then (Status400 ''startDate and endDate are required'', st, [])
      else
        (case (startDate, endDate) of
           (Parsed start, Parsed finish) \<Rightarrow>
             (case restoreFromArchive fails now start finish st of
                (Inl e, st', tr) \<Rightarrow> (Status500 ''Failed to restore from archive'', st', tr)
              | (Inr restoredCount, st', tr) \<Rightarrow> (Status200 restoredCount start finish, st', tr))
         | _ \<Rightarrow> (Status400 ''Invalid date format'', st, [])))"

text \<open>
  The parts of a run's result, and the batches that a trace of store operations tried to
  insert. \<open>noFaults\<close> is the environment in which no store operation raises;
  \<open>failsOn\<close> is the one in which exactly the given operation does.
\<close>

definition outcome :: "'r \<times> 's \<times> 't \<Rightarrow> 'r" where
  "outcome run = fst run"

definition storeOf :: "'r \<times> 's \<times> 't \<Rightarrow> 's" where
  "storeOf run = fst (snd run)"

definition trace :: "'r \<times> 's \<times> 't \<Rightarrow> 't" where
  "trace run = snd (snd run)"

fun insertedBatches :: "'d store_op list \<Rightarrow> 'd Cost list list" where
  "insertedBatches [] = []"
| "insertedBatches (InsertArchive recs # tr) = recs # insertedBatches tr"
| "insertedBatches (_ # tr) = insertedBatches tr"

definition archiveAll :: "timestamp \<Rightarrow> 'd ArchivedCost list \<Rightarrow> 'd Cost list list \<Rightarrow> 'd ArchivedCost list" where
  "archiveAll now arch batches = foldl (\<lambda>a recs. insertIgnore now recs a) arch batches"

definition noFaults :: "'d store_op \<Rightarrow> bool" where
  "noFaults op = False"

definition failsOn :: "'d store_op \<Rightarrow> 'd store_op \<Rightarrow> bool" where
  "failsOn bad op = (op = bad)"

section \<open>Range resolution in ExpenseService.getTrends\<close>

text \<open>
  The validated query (\<open>TrendsQuery\<close>). The optional category of the query is called
  \<open>q_category\<close>, since \<open>category\<close> is the field of \<open>Cost\<close>.
\<close>

datatype GroupBy = ByMonth | ByYear | ByCategory

record TrendsQuery =
  startYear :: int
  endYear :: int
  startMonth :: "int option"
  endMonth :: "int option"
  q_category :: "string option"
  groupBy :: "GroupBy option"

text \<open>
  JavaScript truthiness of an optional number (\<open>if (query.startMonth)\<close>) and of an
  optional string (\<open>if (query.category)\<close>): absent values, \<open>0\<close> and the empty string
  are falsy.
\<close>

definition truthy :: "int option \<Rightarrow> bool" where
  "truthy v = (case v of None \<Rightarrow> False | Some n \<Rightarrow> n \<noteq> 0)"

definition truthyStr :: "string option \<Rightarrow> bool" where
  "truthyStr v = (case v of None \<Rightarrow> False | Some s \<Rightarrow> s \<noteq> [])"

text \<open>
  The fragment of \<open>Prisma.CostWhereInput\<close> that \<open>getTrends\<close> builds: a filter on an
  integer column is a value to equal or a set of bounds; the \<open>where\<close> object has an
  optional filter on \<open>year\<close> and on \<open>month\<close>, an optional \<open>OR\<close> list of conditions on
  \<open>year\<close> and \<open>month\<close>, and an optional category.
\<close>

datatype IntFilter =
    Equals int
  | Bounds (f_gt: "int option") (f_gte: "int option") (f_lt: "int option") (f_lte: "int option")

record DateCondition =
  dc_year :: "IntFilter option"
  dc_month :: "IntFilter option"

record CostWhereInput =
  w_year :: "IntFilter option"
  w_month :: "IntFilter option"
  w_OR :: "DateCondition list option"
  w_category :: "string option"

text \<open>How the store reads such a \<open>where\<close> object: all present parts must hold.\<close>

definition holdsBound :: "(int \<Rightarrow> int \<Rightarrow> bool) \<Rightarrow> int option \<Rightarrow> int \<Rightarrow> bool" where
  "holdsBound rel b v = (case b of None \<Rightarrow> True | Some x \<Rightarrow> rel v x)"

fun matchInt :: "IntFilter \<Rightarrow> int \<Rightarrow> bool" where
  "matchInt (Equals x) v = (v = x)"
| "matchInt (Bounds g ge l le) v =
     (holdsBound (\<lambda>a b. a > b) g v \<and> holdsBound (\<lambda>a b. a \<ge> b) ge v \<and>
      holdsBound (\<lambda>a b. a < b) l v \<and> holdsBound (\<lambda>a b. a \<le> b) le v)"

definition matchOpt :: "IntFilter option \<Rightarrow> int \<Rightarrow> bool" where
  "matchOpt f v = (case f of None \<Rightarrow> True | Some flt \<Rightarrow> matchInt flt v)"

definition matchCondition :: "DateCondition \<Rightarrow> 'd Cost \<Rightarrow> bool" where
  "matchCondition c r = (matchOpt (dc_year c) (year r) \<and> matchOpt (dc_month c) (month r))"

definition matchWhere :: "CostWhereInput \<Rightarrow> 'd Cost \<Rightarrow> bool" where
  "matchWhere w r =
     (matchOpt (w_year w) (year r) \<and> matchOpt (w_month w) (month r) \<and>
      (case w_OR w of None \<Rightarrow> True | Some cs \<Rightarrow> list_ex (\<lambda>c. matchCondition c r) cs) \<and>
      (case w_category w of None \<Rightarrow> True | Some c \<Rightarrow> category r = c))"

text \<open>The \<open>where\<close> object that \<open>getTrends\<close> builds from the query.\<close>

definition sameYearMonth :: "TrendsQuery \<Rightarrow> IntFilter option" where
  "sameYearMonth query =
     (if truthy (startMonth query) \<and> truthy (endMonth query)
      then Some (Bounds None (startMonth query) None (endMonth query))
      else if truthy (startMonth query) then Some (Bounds None (startMonth query) None None)
      else if truthy (endMonth query) then Some (Bounds None None None (endMonth query))
      else None)"

definition dateConditions :: "TrendsQuery \<Rightarrow> DateCondition list" where
  "dateConditions query =
     [if truthy (startMonth query)
      then \<lparr>dc_year = Some (Equals (startYear query)),
            dc_month = Some (Bounds None (startMonth query) None None)\<rparr>
      else \<lparr>dc_year = Some (Equals (startYear query)), dc_month = None\<rparr>]
     @ (if endYear query - startYear query > 1
        then [\<lparr>dc_year = Some (Bounds (Some (startYear query)) None (Some (endYear query)) None),
               dc_month = None\<rparr>]
        else [])
     @ [if truthy (endMonth query)
        then \<lparr>dc_year = Some (Equals (endYear query)),
              dc_month = Some (Bounds None None None (endMonth query))\<rparr>
        else \<lparr>dc_year = Some (Equals (endYear query)), dc_month = None\<rparr>]"

definition trendsWhere :: "TrendsQuery \<Rightarrow> CostWhereInput" where
  "trendsWhere query =
     (if startYear query = endYear query
      then \<lparr>w_year = Some (Equals (startYear query)), w_month = sameYearMonth query,
            w_OR = None, w_category = None\<rparr>
      else \<lparr>w_year = None, w_month = None, w_OR = Some (dateConditions query),
            w_category = None\<rparr>)
     \<lparr>w_category := (if truthyStr (q_category query) then q_category query else None)\<rparr>"

text \<open>
  The range of the request as the specification words it. \<open>threePartUnion\<close>: the start
  year from the start month on, every year strictly between, the end year up to the end
  month. \<open>inSpan\<close>: the period \<open>(year, month)\<close> lies between the start and the end of
  the request, both included.
\<close>

definition fromStartMonth :: "TrendsQuery \<Rightarrow> int \<Rightarrow> bool" where
  "fromStartMonth query m = (case startMonth query of None \<Rightarrow> True | Some s \<Rightarrow> s \<le> m)"

definition uptoEndMonth :: "TrendsQuery \<Rightarrow> int \<Rightarrow> bool" where
  "uptoEndMonth query m = (case endMonth query of None \<Rightarrow> True | Some e \<Rightarrow> m \<le> e)"

definition threePartUnion :: "TrendsQuery \<Rightarrow> int \<Rightarrow> int \<Rightarrow> bool" where
  "threePartUnion query y m =
     (y = startYear query \<and> fromStartMonth query m
      \<or> startYear query < y \<and> y < endYear query
      \<or> y = endYear query \<and> uptoEndMonth query m)"

definition inSpan :: "TrendsQuery \<Rightarrow> int \<Rightarrow> int \<Rightarrow> bool" where
  "inSpan query y m =
     ((startYear query < y \<or> startYear query = y \<and> fromStartMonth query m) \<and>
      (y < endYear query \<or> y = endYear query \<and> uptoEndMonth query m))"

definition categoryWanted :: "TrendsQuery \<Rightarrow> string \<Rightarrow> bool" where
  "categoryWanted query c = (if truthyStr (q_category query) then q_category query = Some c else True)"

section \<open>The ordering rule of trendsQuerySchema\<close>

text \<open>
  The \<open>.custom\<close> rule of the schema, which Joi runs on a value whose keys have passed
  their own rules. Its error is \<open>any.invalid\<close> with a message.
\<close>

datatype validation_error = AnyInvalid string

definition monthBefore :: "int option \<Rightarrow> int option \<Rightarrow> bool" where
  "monthBefore e s = (case (e, s) of (Some x, Some y) \<Rightarrow> x < y | _ \<Rightarrow> False)"

definition trendsCustom :: "TrendsQuery \<Rightarrow> validation_error + TrendsQuery" where
  "trendsCustom v =
     (if endYear v < startYear v
      then Inl (AnyInvalid ''End year cannot be before start year'')
      else if startYear v = endYear v \<and> truthy (startMonth v) \<and> truthy (endMonth v)
              \<and> monthBefore (endMonth v) (startMonth v)
      then Inl (AnyInvalid ''End month cannot be before start month in the same year'')
      else Inr v)"

text \<open>
  The key rules of the schema for the two months
  (\<open>Joi.number().integer().min(1).max(12).optional()\<close>).
\<close>

definition monthKeyValid :: "int option \<Rightarrow> bool" where
  "monthKeyValid m = (case m of None \<Rightarrow> True | Some v \<Rightarrow> 1 \<le> v \<and> v \<le> 12)"

section \<open>The trend aggregation of ExpenseService\<close>

subsection \<open>JavaScript strings and keys\<close>

text \<open>
  \<open>String(n)\<close> for an integer \<open>n\<close>, \<open>padStart(2, '0')\<close>, \<open>split('-')\<close> and
  \<open>parseInt\<close>. The result of \<open>parseInt\<close> is a JavaScript number that may be \<open>NaN\<close>,
  which is \<open>None\<close> here. \<open>parseInt\<close> skips leading white space, reads a sign and then
  decimal digits up to the first other character (a hexadecimal prefix is not modelled:
  the keys below contain digits and \<open>-\<close> only).
\<close>

definition digitChar :: "nat \<Rightarrow> char" where
  "digitChar d = ''0123456789'' ! d"

definition isDigit :: "char \<Rightarrow> bool" where
  "isDigit c = (c \<in> set ''0123456789'')"

text \<open>The value of a digit is its position in \<open>0123456789\<close>.\<close>

definition digitVal :: "char \<Rightarrow> nat" where
  "digitVal c = length (takeWhile (\<lambda>d. d \<noteq> c) ''0123456789'')"

fun natToString :: "nat \<Rightarrow> string" where
  "natToString n = (if n < 10 then [digitChar n] else natToString (n div 10) @ [digitChar (n mod 10)])"

declare natToString.simps [simp del]

definition intToString :: "int \<Rightarrow> string" where
  "intToString i = (if i < 0 then CHR ''-'' # natToString (nat (- i)) else natToString (nat i))"

definition padStart2 :: "string \<Rightarrow> string" where
  "padStart2 s = (if length s < 2 then replicate (2 - length s) CHR ''0'' @ s else s)"

fun splitDash :: "string \<Rightarrow> string list" where
  "splitDash [] = [[]]"
| "splitDash (c # cs) =
     (if c = CHR ''-'' then [] # splitDash cs
      else (case splitDash cs of [] \<Rightarrow> [[c]] | p # ps \<Rightarrow> (c # p) # ps))"

definition isSpace :: "char \<Rightarrow> bool" where
  "isSpace c = (c \<in> set [CHR '' '', CHR 0x09, CHR 0x0A, CHR 0x0B, CHR 0x0C, CHR 0x0D])"

definition digitsValue :: "string \<Rightarrow> nat" where
  "digitsValue ds = foldl (\<lambda>acc c. 10 * acc + digitVal c) 0 ds"

definition parseUnsigned :: "string \<Rightarrow> int option" where
  "parseUnsigned s =
     (if takeWhile isDigit s = [] then None else Some (int (digitsValue (takeWhile isDigit s))))"

definition parseInt :: "string \<Rightarrow> int option" where
  "parseInt s =
     (case dropWhile isSpace s of
        [] \<Rightarrow> None
      | c # cs \<Rightarrow>
          if c = CHR ''-'' then map_option uminus (parseUnsigned cs)
          else if c = CHR ''+'' then parseUnsigned cs
          else parseUnsigned (c # cs))"

text \<open>The key \<open>`${expense.year}-${String(expense.month).padStart(2, '0')}`\<close>.\<close>

definition monthKey :: "int \<Rightarrow> int \<Rightarrow> string" where
  "monthKey y m = intToString y @ ''-'' @ padStart2 (intToString m)"

text \<open>
  \<open>const [year, month] = key.split('-')\<close> followed by \<open>parseInt(year || '0')\<close> and
  \<open>parseInt(month || '0')\<close>: a missing or empty part is read as \<open>'0'\<close>.
\<close>

definition orZero :: "string option \<Rightarrow> string" where
  "orZero p = (case p of None \<Rightarrow> ''0'' | Some s \<Rightarrow> if s = [] then ''0'' else s)"

definition nthOpt :: "'a list \<Rightarrow> nat \<Rightarrow> 'a option" where
  "nthOpt xs i = (if i < length xs then Some (xs ! i) else None)"

definition keyYear :: "string \<Rightarrow> int option" where
  "keyYear key = parseInt (orZero (nthOpt (splitDash key) 0))"

definition keyMonth :: "string \<Rightarrow> int option" where
  "keyMonth key = parseInt (orZero (nthOpt (splitDash key) 1))"

subsection \<open>JavaScript maps and sorting\<close>

text \<open>
  A \<open>Map\<close> keeps its entries in insertion order: an association list in which \<open>set\<close>
  replaces the value of a present key in place and appends an absent one.
\<close>

fun mapSet :: "'k \<Rightarrow> 'v \<Rightarrow> ('k \<times> 'v) list \<Rightarrow> ('k \<times> 'v) list" where
  "mapSet k v [] = [(k, v)]"
| "mapSet k v (e # m) = (if fst e = k then (k, v) # m else e # mapSet k v m)"

definition mapGet :: "'k \<Rightarrow> ('k \<times> 'v) list \<Rightarrow> 'v option" where
  "mapGet k m = map_of m k"

definition mapHas :: "'k \<Rightarrow> ('k \<times> 'v) list \<Rightarrow> bool" where
  "mapHas k m = (map_of m k \<noteq> None)"

text \<open>
  \<open>Array.prototype.sort\<close> with a comparator is stable. \<open>after x y\<close> says that the
  comparator is positive on \<open>(x, y)\<close>, so that \<open>x\<close> has to come after \<open>y\<close>.
\<close>

fun insertBy :: "('a \<Rightarrow> 'a \<Rightarrow> bool) \<Rightarrow> 'a \<Rightarrow> 'a list \<Rightarrow> 'a list" where
  "insertBy after x [] = [x]"
| "insertBy after x (y # ys) = (if after x y then y # insertBy after x ys else x # y # ys)"

definition sortBy :: "('a \<Rightarrow> 'a \<Rightarrow> bool) \<Rightarrow> 'a list \<Rightarrow> 'a list" where
  "sortBy after xs = foldr (insertBy after) xs []"

text \<open>
  The comparator \<open>a.year - b.year || a.month - b.month\<close> on numbers that may be \<open>NaN\<close>:
  a difference that is \<open>0\<close> or \<open>NaN\<close> is falsy, and \<open>sort\<close> reads \<open>NaN\<close> as \<open>0\<close>.
\<close>

definition jsMinus :: "int option \<Rightarrow> int option \<Rightarrow> int option" where
  "jsMinus a b = (case (a, b) of (Some x, Some y) \<Rightarrow> Some (x - y) | _ \<Rightarrow> None)"

definition jsOr :: "int option \<Rightarrow> int option \<Rightarrow> int option" where
  "jsOr a b = (if truthy a then a else b)"

definition positive :: "int option \<Rightarrow> bool" where
  "positive v = (case v of None \<Rightarrow> False | Some n \<Rightarrow> 0 < n)"

definition periodAfter :: "int option \<times> int option \<Rightarrow> int option \<times> int option \<Rightarrow> bool" where
  "periodAfter a b = positive (jsOr (jsMinus (fst a) (fst b)) (jsMinus (snd a) (snd b)))"

subsection \<open>The three groupings\<close>

text \<open>
  Amounts are JavaScript numbers (\<open>Number(expense.amount)\<close>). Their type \<open>'n\<close>, with
  its zero, addition, subtraction and order, is a parameter, and so is the conversion
  \<open>num\<close> from the stored decimal. \<open>categories.get(c) || 0\<close> is the stored sum, or zero
  for an absent key (a stored sum that is falsy is zero itself; \<open>NaN\<close> does not arise
  from sums of stored decimals).
\<close>

record 'n CategoryAmount =
  ca_category :: string
  ca_amount :: 'n

record 'n MonthlyTrendData =
  mt_month :: "int option"
  mt_year :: "int option"
  mt_totalAmount :: 'n
  mt_categoryBreakdown :: "'n CategoryAmount list"

record 'n YearlyTrendData =
  yt_year :: int
  yt_totalAmount :: 'n
  yt_categoryBreakdown :: "'n CategoryAmount list"

record 'n MonthAmount =
  ma_month :: "int option"
  ma_year :: "int option"
  ma_amount :: 'n

record 'n CategoryTrendData =
  ct_category :: string
  ct_totalAmount :: 'n
  ct_monthlyBreakdown :: "'n MonthAmount list"

definition getOrZero :: "'k \<Rightarrow> ('k \<times> 'n) list \<Rightarrow> 'n::zero" where
  "getOrZero k m = (case mapGet k m of None \<Rightarrow> 0 | Some v \<Rightarrow> v)"

text \<open>
  One round of the \<open>forEach\<close> of the three functions: create the group if the key is
  new, add the amount to the total of the group and to the entry of its nested map.
\<close>

definition addToGroup ::
  "'k \<Rightarrow> 'j \<Rightarrow> 'n \<Rightarrow> ('k \<times> 'n \<times> ('j \<times> 'n) list) list \<Rightarrow> ('k \<times> 'n::{zero,plus} \<times> ('j \<times> 'n) list) list" where
  "addToGroup key inner amt groups =
     (case mapGet key (if \<not> mapHas key groups then mapSet key (0, []) groups else groups) of
        None \<Rightarrow> (if \<not> mapHas key groups then mapSet key (0, []) groups else groups)
      | Some (totalAmount, nested) \<Rightarrow>
          mapSet key (totalAmount + amt, mapSet inner (getOrZero inner nested + amt) nested)
            (if \<not> mapHas key groups then mapSet key (0, []) groups else groups))"

definition monthlyMap ::
  "('d \<Rightarrow> 'n) \<Rightarrow> 'd Cost list \<Rightarrow> (string \<times> 'n::{zero,plus} \<times> (string \<times> 'n) list) list" where
  "monthlyMap num expenses =
     foldl (\<lambda>groups expense.
              addToGroup (monthKey (year expense) (month expense)) (category expense)
                (num (amount expense)) groups)
       [] expenses"

definition categoryBreakdownOf :: "(string \<times> 'n) list \<Rightarrow> 'n CategoryAmount list" where
  "categoryBreakdownOf categories =
     map (\<lambda>(c, a). \<lparr>ca_category = c, ca_amount = a\<rparr>) categories"

definition monthlyAfter :: "'n MonthlyTrendData \<Rightarrow> 'n MonthlyTrendData \<Rightarrow> bool" where
  "monthlyAfter a b = periodAfter (mt_year a, mt_month a) (mt_year b, mt_month b)"

text \<open>The \<open>data\<close> of \<open>processMonthlyTrends\<close>.\<close>

definition processMonthlyTrends ::
  "('d \<Rightarrow> 'n) \<Rightarrow> 'd Cost list \<Rightarrow> ('n::{zero,plus}) MonthlyTrendData list" where
  "processMonthlyTrends num expenses =
     sortBy monthlyAfter
       (map (\<lambda>(key, totalAmount, categories).
               \<lparr>mt_month = keyMonth key, mt_year = keyYear key, mt_totalAmount = totalAmount,
                mt_categoryBreakdown = categoryBreakdownOf categories\<rparr>)
          (monthlyMap num expenses))"

definition yearlyMap ::
  "('d \<Rightarrow> 'n) \<Rightarrow> 'd Cost list \<Rightarrow> (int \<times> 'n::{zero,plus} \<times> (string \<times> 'n) list) list" where
  "yearlyMap num expenses =
     foldl (\<lambda>groups expense.
              addToGroup (year expense) (category expense) (num (amount expense)) groups)
       [] expenses"

definition yearlyAfter :: "'n YearlyTrendData \<Rightarrow> 'n YearlyTrendData \<Rightarrow> bool" where
  "yearlyAfter a b = (0 < yt_year a - yt_year b)"

text \<open>The \<open>data\<close> of \<open>processYearlyTrends\<close>.\<close>

definition processYearlyTrends ::
  "('d \<Rightarrow> 'n) \<Rightarrow> 'd Cost list \<Rightarrow> ('n::{zero,plus}) YearlyTrendData list" where
  "processYearlyTrends num expenses =
     sortBy yearlyAfter
       (map (\<lambda>(y, totalAmount, categories).
               \<lparr>yt_year = y, yt_totalAmount = totalAmount,
                yt_categoryBreakdown = categoryBreakdownOf categories\<rparr>)
          (yearlyMap num expenses))"

definition categoryMap ::
  "('d \<Rightarrow> 'n) \<Rightarrow> 'd Cost list \<Rightarrow> (string \<times> 'n::{zero,plus} \<times> (string \<times> 'n) list) list" where
  "categoryMap num expenses =
     foldl (\<lambda>groups expense.
              addToGroup (category expense) (monthKey (year expense) (month expense))
                (num (amount expense)) groups)
       [] expenses"

definition monthAmountAfter :: "'n MonthAmount \<Rightarrow> 'n MonthAmount \<Rightarrow> bool" where
  "monthAmountAfter a b = periodAfter (ma_year a, ma_month a) (ma_year b, ma_month b)"

definition monthlyBreakdownOf :: "(string \<times> 'n) list \<Rightarrow> 'n MonthAmount list" where
  "monthlyBreakdownOf months =
     sortBy monthAmountAfter
       (map (\<lambda>(key, a).
               \<lparr>ma_month = keyMonth key, ma_year = keyYear key, ma_amount = a\<rparr>)
          months)"

text \<open>\<open>b.totalAmount - a.totalAmount\<close> is positive.\<close>

definition totalAfter ::
  "('n::{zero,minus,ord}) CategoryTrendData \<Rightarrow> 'n CategoryTrendData \<Rightarrow> bool" where
  "totalAfter a b = (0 < ct_totalAmount b - ct_totalAmount a)"

text \<open>The \<open>data\<close> of \<open>processCategoryTrends\<close>.\<close>

definition processCategoryTrends ::
  "('d \<Rightarrow> 'n) \<Rightarrow> 'd Cost list \<Rightarrow> ('n::{zero,plus,minus,ord}) CategoryTrendData list" where
  "processCategoryTrends num expenses =
     sortBy totalAfter
       (map (\<lambda>(c, totalAmount, months).
               \<lparr>ct_category = c, ct_totalAmount = totalAmount,
                ct_monthlyBreakdown = monthlyBreakdownOf months\<rparr>)
          (categoryMap num expenses))"

text \<open>The keys of the groups and of their breakdowns.\<close>

definition monthlyKeys :: "'n MonthlyTrendData list \<Rightarrow> (int option \<times> int option) list" where
  "monthlyKeys data = map (\<lambda>g. (mt_year g, mt_month g)) data"

definition breakdownCategories :: "'n CategoryAmount list \<Rightarrow> string list" where
  "breakdownCategories b = map ca_category b"

definition breakdownPeriods :: "'n MonthAmount list \<Rightarrow> (int option \<times> int option) list" where
  "breakdownPeriods b = map (\<lambda>e. (ma_year e, ma_month e)) b"

text \<open>
  A run stops at the first operation that fails: the error is that operation, it is the
  last of the trace, and no operation before it failed.
\<close>

definition completed :: "('e + 'r) \<Rightarrow> 'o list \<Rightarrow> 'o list" where
  "completed out tr = (if isl out then butlast tr else tr)"

definition stopsAtFailure :: "('d store_op \<Rightarrow> bool) \<Rightarrow> ('d error + 'r) \<Rightarrow> 'd store_op list \<Rightarrow> bool" where
  "stopsAtFailure fails out tr =
     ((\<forall>op \<in> set (completed out tr). \<not> fails op) \<and>
      (isl out \<longrightarrow> tr \<noteq> [] \<and> out = Inl (StoreError (last tr)) \<and> fails (last tr)))"


text \<open>All the upserts of a restore, in the order of the rows read from the archive.\<close>

definition upsertAll :: "timestamp \<Rightarrow> 'd Cost list \<Rightarrow> 'd Cost list \<Rightarrow> 'd Cost list" where
  "upsertAll now records lv = foldl (\<lambda>l a. upsert now a l) lv records"

text \<open>
  The ordering of a range as the specification words it: the end year before the start
  year, or the same year and, both months given, the end month before the start month.
\<close>

definition rangeDisordered :: "TrendsQuery \<Rightarrow> bool" where
  "rangeDisordered query =
     (endYear query < startYear query \<or>
      startYear query = endYear query \<and> monthBefore (endMonth query) (startMonth query))"

text \<open>
  In a map of groups, outer keys are distinct and satisfy \<open>K\<close>; in every group, the keys
  of the nested map are distinct and satisfy \<open>J\<close>.
\<close>

definition groupsInv ::
  "('k \<Rightarrow> bool) \<Rightarrow> ('j \<Rightarrow> bool) \<Rightarrow> ('k \<times> 'n \<times> ('j \<times> 'n) list) list \<Rightarrow> bool" where
  "groupsInv K J groups =
     (distinct (map fst groups) \<and>
      (\<forall>g \<in> set groups.
         K (fst g) \<and> distinct (map fst (snd (snd g))) \<and> (\<forall>j \<in> fst ` set (snd (snd g)). J j)))"

text \<open>The keys that name a period with a year and a month that are not negative.\<close>

definition periodKey :: "string \<Rightarrow> bool" where
  "periodKey k = (\<exists>y m. 0 \<le> y \<and> 0 \<le> m \<and> k = monthKey y m)"

definition keyPeriod :: "string \<Rightarrow> int option \<times> int option" where
  "keyPeriod k = (keyYear k, keyMonth k)"

section \<open>JavaScript numbers\<close>

text \<open>
  The three functions read an amount with \<open>Number(expense.amount)\<close> and add with \<open>+=\<close>:
  the totals are IEEE 754 doubles. A finite double is \<open>mant * 2 ^ expo\<close> with a mantissa
  of at most 53 bits, kept odd (or zero) so that every number has one form. The range of
  the exponent is left out: an amount is a \<open>DECIMAL(12,2)\<close>, far from overflow and
  underflow.
\<close>

datatype jsNumber = Num (mant: int) (expo: int)

text \<open>The number of bits of a positive integer.\<close>

function bitLength :: "int \<Rightarrow> nat" where
  "bitLength m = (if m \<le> 0 then 0 else Suc (bitLength (m div 2)))"
  by pat_completeness auto
termination
  by (relation "measure nat") auto

declare bitLength.simps [simp del]

text \<open>The form with an odd mantissa.\<close>

function normalise :: "int \<Rightarrow> int \<Rightarrow> jsNumber" where
  "normalise m e = (if m = 0 then Num 0 0 else if even m then normalise (m div 2) (e + 1) else Num m e)"
  by pat_completeness auto
termination
proof (relation "measure (\<lambda>(m, e). nat \<bar>m\<bar>)")
  show "wf (measure (\<lambda>(m :: int, e :: int). nat \<bar>m\<bar>))"
    by simp
next
  fix m e :: int
  assume "m \<noteq> 0" "even m"
  then have "\<bar>m div 2\<bar> < \<bar>m\<bar>"
    by presburger
  then show "((m div 2, e + 1), (m, e)) \<in> measure (\<lambda>(m, e). nat \<bar>m\<bar>)"
    by simp
qed

declare normalise.simps [simp del]

text \<open>
  \<open>m / 2 ^ k\<close> rounded to the nearest integer, ties to the even one; then a mantissa of
  any length rounded to 53 bits.
\<close>

definition roundHalfEven :: "int \<Rightarrow> nat \<Rightarrow> int" where
  "roundHalfEven m k =
     (if k = 0 then m
      else if m mod 2 ^ k > 2 ^ (k - 1) \<or> (m mod 2 ^ k = 2 ^ (k - 1) \<and> odd (m div 2 ^ k))
      then m div 2 ^ k + 1 else m div 2 ^ k)"

definition roundTo53 :: "int \<Rightarrow> int \<Rightarrow> jsNumber" where
  "roundTo53 m e =
     (let k = bitLength \<bar>m\<bar> - 53
      in normalise (sgn m * roundHalfEven \<bar>m\<bar> k) (e + int k))"


text \<open>The exact sum of two numbers, as a mantissa at the smaller exponent.\<close>

definition exactSum :: "jsNumber \<Rightarrow> jsNumber \<Rightarrow> int \<times> int" where
  "exactSum a b =
     (mant a * 2 ^ nat (expo a - min (expo a) (expo b)) + mant b * 2 ^ nat (expo b - min (expo a) (expo b)),
      min (expo a) (expo b))"


text \<open>
  Addition rounds the exact sum; subtraction adds the opposite; the comparisons look at
  the sign of the exact difference.
\<close>

instantiation jsNumber :: "{zero,plus,minus,uminus,ord}"
begin

definition zero_jsNumber :: jsNumber where
  "zero_jsNumber = Num 0 0"

definition uminus_jsNumber :: "jsNumber \<Rightarrow> jsNumber" where
  "uminus_jsNumber a = Num (- mant a) (expo a)"

definition plus_jsNumber :: "jsNumber \<Rightarrow> jsNumber \<Rightarrow> jsNumber" where
  "plus_jsNumber a b = roundTo53 (fst (exactSum a b)) (snd (exactSum a b))"

definition minus_jsNumber :: "jsNumber \<Rightarrow> jsNumber \<Rightarrow> jsNumber" where
  "minus_jsNumber a b = a + (- b)"

definition less_jsNumber :: "jsNumber \<Rightarrow> jsNumber \<Rightarrow> bool" where
  "less_jsNumber a b = (fst (exactSum a (- b)) < 0)"

definition less_eq_jsNumber :: "jsNumber \<Rightarrow> jsNumber \<Rightarrow> bool" where
  "less_eq_jsNumber a b = (fst (exactSum a (- b)) \<le> 0)"

instance ..

end

text \<open>
  \<open>Number(amount)\<close> for an amount of \<open>cents\<close> hundredths: the double nearest to
  \<open>cents / 100\<close>. The quotient is taken to 64 binary places, with one more bit that
  records whether anything was cut off, which is enough to round it as the exact quotient.
\<close>

definition decimalNumber :: "int \<Rightarrow> jsNumber" where
  "decimalNumber cents =
     roundTo53 (sgn cents * (2 * ((\<bar>cents\<bar> * 2 ^ 64) div 100)
                 + (if (\<bar>cents\<bar> * 2 ^ 64) mod 100 = 0 then 0 else 1))) (- 65)"


text \<open>The rational number that a double stands for.\<close>

definition valueOf :: "jsNumber \<Rightarrow> rat" where
  "valueOf a = (if 0 \<le> expo a then of_int (mant a) * 2 ^ nat (expo a)
                else of_int (mant a) / 2 ^ nat (- expo a))"


text \<open>The double that holds \<open>q\<close> quarters of a unit, and the doubles worth \<open>q\<close> quarters.\<close>

definition quarterNumber :: "int \<Rightarrow> jsNumber" where
  "quarterNumber q = normalise q (- 2)"

definition isQuarters :: "jsNumber \<Rightarrow> int \<Rightarrow> bool" where
  "isQuarters a q = (- 2 \<le> expo a \<and> mant a * 2 ^ nat (expo a + 2) = q)"


text \<open>The amount of a record in quarters of a unit.\<close>

definition quarters :: "int \<Rightarrow> int" where
  "quarters cents = cents div 25"


subsection \<open>The same grouping in two arithmetics\<close>

text \<open>
  A map of groups carried from one number type to another, the groups whose integer
  totals and entries lie between 0 and \<open>B\<close>, and the groups whose total is the sum of
  the nested map.
\<close>

definition liftNested :: "('a \<Rightarrow> 'b) \<Rightarrow> ('j \<times> 'a) list \<Rightarrow> ('j \<times> 'b) list" where
  "liftNested f nested = map (\<lambda>p. (fst p, f (snd p))) nested"

definition liftGroups ::
  "('a \<Rightarrow> 'b) \<Rightarrow> ('k \<times> 'a \<times> ('j \<times> 'a) list) list \<Rightarrow> ('k \<times> 'b \<times> ('j \<times> 'b) list) list" where
  "liftGroups f groups = map (\<lambda>g. (fst g, f (fst (snd g)), liftNested f (snd (snd g)))) groups"

definition groupsBounded :: "int \<Rightarrow> ('k \<times> int \<times> ('j \<times> int) list) list \<Rightarrow> bool" where
  "groupsBounded B groups =
     (\<forall>g \<in> set groups. 0 \<le> fst (snd g) \<and> fst (snd g) \<le> B \<and>
        (\<forall>p \<in> set (snd (snd g)). 0 \<le> snd p \<and> snd p \<le> B))"

definition groupsSummed :: "('k \<times> 'n::comm_monoid_add \<times> ('j \<times> 'n) list) list \<Rightarrow> bool" where
  "groupsSummed groups =
     (\<forall>g \<in> set groups. fst (snd g) = sum_list (map snd (snd (snd g))))"


section \<open>Example data\<close>

definition mkCost :: "int \<Rightarrow> string \<Rightarrow> int \<Rightarrow> int \<Rightarrow> int \<Rightarrow> timestamp \<Rightarrow> int Cost" where
  "mkCost i c a m y t =
     \<lparr>cost_id = i, category = c, amount = a, month = m, year = y, createdAt = t, updatedAt = t\<rparr>"

text \<open>
  Five records created before time 100 and one created after it, with amounts in cents,
  and an empty archive.
\<close>

definition fiveOld :: "int store" where
  "fiveOld =
     \<lparr>live = [mkCost 1 ''Salaries'' 5000000 1 2024 50, mkCost 2 ''Salaries'' 5100000 2 2024 10,
              mkCost 3 ''Marketing'' 30000 1 2024 30, mkCost 4 ''Marketing'' 30050 2 2024 40,
              mkCost 5 ''Marketing'' 29999 3 2024 20, mkCost 6 ''Marketing'' 1 3 2025 200],
      archive = []\<rparr>"



text \<open>A live record and an archive row with the same id and different columns.\<close>

definition collidingRow :: "int store" where
  "collidingRow =
     \<lparr>live = [mkCost 1 ''Salaries'' 20000 1 2024 50],
      archive = [(mkCost 1 ''Marketing'' 10000 2 2025 60, 900)]\<rparr>"

text \<open>The request from November 2023 to February 2024.\<close>

definition q2324 :: TrendsQuery where
  "q2324 = \<lparr>startYear = 2023, endYear = 2024, startMonth = Some 11, endMonth = Some 2,
            q_category = None, groupBy = None\<rparr>"


text \<open>Three records of two months, with amounts in cents.\<close>

definition threeExpenses :: "int Cost list" where
  "threeExpenses =
     [mkCost 1 ''Salaries'' 5000000 1 2024 0, mkCost 2 ''SoftwareTools'' 200000 1 2024 0,
      mkCost 3 ''Salaries'' 5100000 2 2024 0]"

text \<open>
  Three records whose amounts are multiples of 0.25 (10.25, 5.50 and 20.75), and three
  of one year with the amounts 0.10, 0.20 and 0.40.
\<close>

definition quarterExpenses :: "int Cost list" where
  "quarterExpenses =
     [mkCost 1 ''Salaries'' 1025 1 2024 0, mkCost 2 ''SoftwareTools'' 550 1 2024 0,
      mkCost 3 ''Salaries'' 2075 2 2024 0]"

definition driftExpenses :: "int Cost list" where
  "driftExpenses =
     [mkCost 1 ''Salaries'' 10 1 2024 0, mkCost 2 ''Marketing'' 20 1 2024 0,
      mkCost 3 ''Salaries'' 40 2 2024 0]"


section \<open>Properties of the archive service\<close>


subsection \<open>The archival loop, case by case\<close>

lemma archiveLoop_stop:
  "\<not> off < n \<Longrightarrow> archiveLoop fails pageOrder now cutoff b n st c off = (Inr c, st, [])"
  by (subst archiveLoop.simps) simp

lemma archiveLoop_find_fails:
  "off < n \<Longrightarrow> fails (FindOld off b) \<Longrightarrow>
   archiveLoop fails pageOrder now cutoff b n st c off = (Inl (StoreError (FindOld off b)), st, [FindOld off b])"
  by (subst archiveLoop.simps) simp

lemma archiveLoop_empty:
  "off < n \<Longrightarrow> \<not> fails (FindOld off b) \<Longrightarrow> findOld pageOrder cutoff off b (live st) = [] \<Longrightarrow>
   archiveLoop fails pageOrder now cutoff b n st c off = (Inr c, st, [FindOld off b])"
  by (subst archiveLoop.simps) simp

lemma archiveLoop_insert_fails:
  "off < n \<Longrightarrow> \<not> fails (FindOld off b) \<Longrightarrow> findOld pageOrder cutoff off b (live st) \<noteq> [] \<Longrightarrow>
   fails (InsertArchive (findOld pageOrder cutoff off b (live st))) \<Longrightarrow>
   archiveLoop fails pageOrder now cutoff b n st c off =
     (Inl (StoreError (InsertArchive (findOld pageOrder cutoff off b (live st)))), st,
      [FindOld off b, InsertArchive (findOld pageOrder cutoff off b (live st))])"
  by (subst archiveLoop.simps) (simp add: archiveBatch_def)

lemma archiveLoop_step:
  "off < n \<Longrightarrow> \<not> fails (FindOld off b) \<Longrightarrow> findOld pageOrder cutoff off b (live st) \<noteq> [] \<Longrightarrow>
   \<not> fails (InsertArchive (findOld pageOrder cutoff off b (live st))) \<Longrightarrow>
   archiveLoop fails pageOrder now cutoff b n st c off =
     (case archiveLoop fails pageOrder now cutoff b n
             (st\<lparr>archive := insertIgnore now (findOld pageOrder cutoff off b (live st)) (archive st)\<rparr>)
             (c + length (findOld pageOrder cutoff off b (live st))) (off + b) of
        (out, st', tr) \<Rightarrow>
          (out, st', FindOld off b # InsertArchive (findOld pageOrder cutoff off b (live st)) # tr))"
  by (subst archiveLoop.simps) (simp add: archiveBatch_def)

text \<open>An induction rule that follows the five ways through one round of the loop.\<close>

lemma archiveLoop_induct [case_names stop find_fails empty insert_fails step]:
  fixes P :: "'d store \<Rightarrow> nat \<Rightarrow> nat \<Rightarrow> bool"
  assumes stop: "\<And>st c off. \<not> off < n \<Longrightarrow> P st c off"
    and find_fails: "\<And>st c off. off < n \<Longrightarrow> fails (FindOld off b) \<Longrightarrow> P st c off"
    and empty: "\<And>st c off. off < n \<Longrightarrow> \<not> fails (FindOld off b) \<Longrightarrow>
                  findOld pageOrder cutoff off b (live st) = [] \<Longrightarrow> P st c off"
    and insert_fails: "\<And>st c off. off < n \<Longrightarrow> \<not> fails (FindOld off b) \<Longrightarrow>
                  findOld pageOrder cutoff off b (live st) \<noteq> [] \<Longrightarrow>
                  fails (InsertArchive (findOld pageOrder cutoff off b (live st))) \<Longrightarrow> P st c off"
    and step: "\<And>st c off. off < n \<Longrightarrow> \<not> fails (FindOld off b) \<Longrightarrow>
                  findOld pageOrder cutoff off b (live st) \<noteq> [] \<Longrightarrow>
                  \<not> fails (InsertArchive (findOld pageOrder cutoff off b (live st))) \<Longrightarrow>
                  P (st\<lparr>archive := insertIgnore now (findOld pageOrder cutoff off b (live st)) (archive st)\<rparr>)
                    (c + length (findOld pageOrder cutoff off b (live st))) (off + b) \<Longrightarrow>
                  P st c off"
  shows "P st c off"
proof (induction "n - off" arbitrary: st c off rule: less_induct)
  case less
  show ?case
  proof (cases "off < n")
    case False
    then show ?thesis by (rule stop)
  next
    case lt: True
    show ?thesis
    proof (cases "fails (FindOld off b)")
      case True
      with lt show ?thesis by (rule find_fails)
    next
      case nf: False
      show ?thesis
      proof (cases "findOld pageOrder cutoff off b (live st) = []")
        case True
        with lt nf show ?thesis by (rule empty)
      next
        case ne: False
        then have "b \<noteq> 0"
          by (auto simp: findOld_def)
        with lt have smaller: "n - (off + b) < n - off"
          by simp
        show ?thesis
        proof (cases "fails (InsertArchive (findOld pageOrder cutoff off b (live st)))")
          case True
          with lt nf ne show ?thesis by (rule insert_fails)
        next
          case ni: False
          have "P (st\<lparr>archive := insertIgnore now (findOld pageOrder cutoff off b (live st)) (archive st)\<rparr>)
                  (c + length (findOld pageOrder cutoff off b (live st))) (off + b)"
            by (rule less.hyps [OF smaller])
          with lt nf ne ni show ?thesis by (rule step)
        qed
      qed
    qed
  qed
qed


lemma archiveLoop_step_parts:
  assumes "off < n" "\<not> fails (FindOld off b)" "findOld pageOrder cutoff off b (live st) \<noteq> []"
    "\<not> fails (InsertArchive (findOld pageOrder cutoff off b (live st)))"
  shows "outcome (archiveLoop fails pageOrder now cutoff b n st c off) =
           outcome (archiveLoop fails pageOrder now cutoff b n
             (st\<lparr>archive := insertIgnore now (findOld pageOrder cutoff off b (live st)) (archive st)\<rparr>)
             (c + length (findOld pageOrder cutoff off b (live st))) (off + b))"
    and "storeOf (archiveLoop fails pageOrder now cutoff b n st c off) =
           storeOf (archiveLoop fails pageOrder now cutoff b n
             (st\<lparr>archive := insertIgnore now (findOld pageOrder cutoff off b (live st)) (archive st)\<rparr>)
             (c + length (findOld pageOrder cutoff off b (live st))) (off + b))"
    and "trace (archiveLoop fails pageOrder now cutoff b n st c off) =
           FindOld off b # InsertArchive (findOld pageOrder cutoff off b (live st)) #
           trace (archiveLoop fails pageOrder now cutoff b n
             (st\<lparr>archive := insertIgnore now (findOld pageOrder cutoff off b (live st)) (archive st)\<rparr>)
             (c + length (findOld pageOrder cutoff off b (live st))) (off + b))"
  using assms
  by (simp_all add: archiveLoop_step outcome_def storeOf_def trace_def split: prod.splits)

lemma insertIgnore_ids:
  "set (archivedIds (insertIgnore now rs arch)) = set (archivedIds arch) \<union> cost_id ` set rs"
  by (induction rs arbitrary: arch) (auto simp: archivedIds_def)

lemma insertIgnore_distinct:
  "distinct (archivedIds arch) \<Longrightarrow> distinct (archivedIds (insertIgnore now rs arch))"
  by (induction rs arbitrary: arch) (auto simp: archivedIds_def)

lemma archiveLoop_live:
  fixes st :: "'d store"
  shows "live (storeOf (archiveLoop fails pageOrder now cutoff b n st c off)) = live st"
proof (induction st c off rule: archiveLoop_induct [where fails = fails and pageOrder = pageOrder and b = b and n = n
         and cutoff = cutoff and now = now])
  case (step st c off)
  then show ?case by (simp add: archiveLoop_step_parts)
qed (simp_all add: archiveLoop_stop archiveLoop_find_fails archiveLoop_empty
       archiveLoop_insert_fails storeOf_def)

text \<open>The operations of the loop are reads of a batch and inserts of a batch.\<close>

lemma archiveLoop_ops:
  fixes st :: "'d store"
  shows "DeleteOld \<notin> set (trace (archiveLoop fails pageOrder now cutoff b n st c off))"
proof (induction st c off rule: archiveLoop_induct [where fails = fails and pageOrder = pageOrder and b = b and n = n
         and cutoff = cutoff and now = now])
  case (step st c off)
  then show ?case by (simp add: archiveLoop_step_parts)
qed (simp_all add: archiveLoop_stop archiveLoop_find_fails archiveLoop_empty
       archiveLoop_insert_fails trace_def)

lemma stopsAtFailure_Cons:
  "\<not> fails op \<Longrightarrow> stopsAtFailure fails out tr \<Longrightarrow> (tr = [] \<Longrightarrow> \<not> isl out) \<Longrightarrow>
   stopsAtFailure fails out (op # tr)"
  by (auto simp: stopsAtFailure_def completed_def)

lemma archiveLoop_stopsAtFailure:
  fixes st :: "'d store"
  shows "stopsAtFailure fails (outcome (archiveLoop fails pageOrder now cutoff b n st c off))
           (trace (archiveLoop fails pageOrder now cutoff b n st c off))"
proof (induction st c off rule: archiveLoop_induct [where fails = fails and pageOrder = pageOrder and b = b and n = n
         and cutoff = cutoff and now = now])
  case (step st c off)
  then show ?case
    by (auto simp: archiveLoop_step_parts stopsAtFailure_def completed_def)
qed (simp_all add: archiveLoop_stop archiveLoop_find_fails archiveLoop_empty
       archiveLoop_insert_fails trace_def outcome_def stopsAtFailure_def completed_def)

text \<open>The archive after the loop: the inserts of the completed operations, in order.\<close>

lemma archiveLoop_archive:
  fixes st :: "'d store"
  shows "archive (storeOf (archiveLoop fails pageOrder now cutoff b n st c off)) =
         archiveAll now (archive st)
           (insertedBatches (completed (outcome (archiveLoop fails pageOrder now cutoff b n st c off))
                                       (trace (archiveLoop fails pageOrder now cutoff b n st c off))))"
proof (induction st c off rule: archiveLoop_induct [where fails = fails and pageOrder = pageOrder and b = b and n = n
         and cutoff = cutoff and now = now])
  case (step st c off)
  let ?rec = "archiveLoop fails pageOrder now cutoff b n
             (st\<lparr>archive := insertIgnore now (findOld pageOrder cutoff off b (live st)) (archive st)\<rparr>)
             (c + length (findOld pageOrder cutoff off b (live st))) (off + b)"
  have "isl (outcome ?rec) \<Longrightarrow> trace ?rec \<noteq> []"
    using archiveLoop_stopsAtFailure [of fails pageOrder now cutoff b n _ _ "off + b"]
    by (simp add: stopsAtFailure_def)
  with step show ?case
    by (auto simp: archiveLoop_step_parts completed_def archiveAll_def)
qed (simp_all add: archiveLoop_stop archiveLoop_find_fails archiveLoop_empty
       archiveLoop_insert_fails trace_def outcome_def storeOf_def completed_def archiveAll_def)


subsection \<open>A whole archival run\<close>

lemma archiveOldData_cases [case_names ensure_fails count_fails none_old loop_fails delete_fails deleted]:
  fixes st :: "'d store"
  assumes "fails EnsureArchiveTable \<Longrightarrow>
             archiveOldData fails pageOrder now cutoff b st =
               (Inl (StoreError EnsureArchiveTable), st, [EnsureArchiveTable]) \<Longrightarrow> P"
    and "\<not> fails EnsureArchiveTable \<Longrightarrow> fails CountOld \<Longrightarrow>
             archiveOldData fails pageOrder now cutoff b st =
               (Inl (StoreError CountOld), st, [EnsureArchiveTable, CountOld]) \<Longrightarrow> P"
    and "\<not> fails EnsureArchiveTable \<Longrightarrow> \<not> fails CountOld \<Longrightarrow> olderThan cutoff (live st) = [] \<Longrightarrow>
             archiveOldData fails pageOrder now cutoff b st =
               (Inr \<lparr>archivedCount = 0, deletedCount = 0, cutoffDate = cutoff\<rparr>, st,
                [EnsureArchiveTable, CountOld]) \<Longrightarrow> P"
    and "\<And>e. \<not> fails EnsureArchiveTable \<Longrightarrow> \<not> fails CountOld \<Longrightarrow> olderThan cutoff (live st) \<noteq> [] \<Longrightarrow>
             outcome (archiveLoop fails pageOrder now cutoff b (length (olderThan cutoff (live st))) st 0 0) = Inl e \<Longrightarrow>
             archiveOldData fails pageOrder now cutoff b st =
               (Inl e,
                storeOf (archiveLoop fails pageOrder now cutoff b (length (olderThan cutoff (live st))) st 0 0),
                EnsureArchiveTable # CountOld #
                trace (archiveLoop fails pageOrder now cutoff b (length (olderThan cutoff (live st))) st 0 0)) \<Longrightarrow> P"
    and "\<And>cnt. \<not> fails EnsureArchiveTable \<Longrightarrow> \<not> fails CountOld \<Longrightarrow> olderThan cutoff (live st) \<noteq> [] \<Longrightarrow>
             outcome (archiveLoop fails pageOrder now cutoff b (length (olderThan cutoff (live st))) st 0 0) = Inr cnt \<Longrightarrow>
             fails DeleteOld \<Longrightarrow>
             archiveOldData fails pageOrder now cutoff b st =
               (Inl (StoreError DeleteOld),
                storeOf (archiveLoop fails pageOrder now cutoff b (length (olderThan cutoff (live st))) st 0 0),
                EnsureArchiveTable # CountOld #
                trace (archiveLoop fails pageOrder now cutoff b (length (olderThan cutoff (live st))) st 0 0)
                @ [DeleteOld]) \<Longrightarrow> P"
    and "\<And>cnt. \<not> fails EnsureArchiveTable \<Longrightarrow> \<not> fails CountOld \<Longrightarrow> olderThan cutoff (live st) \<noteq> [] \<Longrightarrow>
             outcome (archiveLoop fails pageOrder now cutoff b (length (olderThan cutoff (live st))) st 0 0) = Inr cnt \<Longrightarrow>
             \<not> fails DeleteOld \<Longrightarrow>
             archiveOldData fails pageOrder now cutoff b st =
               (Inr \<lparr>archivedCount = cnt,
                     deletedCount = length (olderThan cutoff
                       (live (storeOf (archiveLoop fails pageOrder now cutoff b (length (olderThan cutoff (live st))) st 0 0)))),
                     cutoffDate = cutoff\<rparr>,
                (storeOf (archiveLoop fails pageOrder now cutoff b (length (olderThan cutoff (live st))) st 0 0))
                  \<lparr>live := filter (\<lambda>r. \<not> createdAt r < cutoff)
                     (live (storeOf (archiveLoop fails pageOrder now cutoff b (length (olderThan cutoff (live st))) st 0 0)))\<rparr>,
                EnsureArchiveTable # CountOld #
                trace (archiveLoop fails pageOrder now cutoff b (length (olderThan cutoff (live st))) st 0 0)
                @ [DeleteOld]) \<Longrightarrow> P"
  shows P
proof (cases "fails EnsureArchiveTable")
  case True
  then show P by (rule assms(1)) (simp add: archiveOldData_def True)
next
  case ne: False
  show P
  proof (cases "fails CountOld")
    case True
    with ne show P by (rule assms(2)) (simp add: archiveOldData_def ne True)
  next
    case nc: False
    show P
    proof (cases "olderThan cutoff (live st) = []")
      case True
      with ne nc show P by (rule assms(3)) (simp add: archiveOldData_def ne nc True)
    next
      case some: False
      let ?loop = "archiveLoop fails pageOrder now cutoff b (length (olderThan cutoff (live st))) st 0 0"
      obtain out st' tr where loop: "?loop = (out, st', tr)"
        by (cases ?loop) auto
      show P
      proof (cases out)
        case (Inl e)
        have "outcome ?loop = Inl e"
          using loop Inl by (simp add: outcome_def)
        with ne nc some show P
          by (rule assms(4))
             (simp add: archiveOldData_def ne nc some loop Inl storeOf_def trace_def)
      next
        case (Inr cnt)
        have out: "outcome ?loop = Inr cnt"
          using loop Inr by (simp add: outcome_def)
        show P
        proof (cases "fails DeleteOld")
          case True
          with ne nc some out show P
            by (rule assms(5))
               (simp add: archiveOldData_def ne nc some loop Inr storeOf_def trace_def True)
        next
          case False
          with ne nc some out show P
            by (rule assms(6))
               (simp add: archiveOldData_def ne nc some loop Inr storeOf_def trace_def False)
        qed
      qed
    qed
  qed
qed


lemma archiveOldData_stopsAtFailure:
  fixes st :: "'d store"
  shows "stopsAtFailure fails (outcome (archiveOldData fails pageOrder now cutoff b st))
           (trace (archiveOldData fails pageOrder now cutoff b st))"
proof (cases rule: archiveOldData_cases [of fails pageOrder now cutoff b st])
  case (loop_fails e)
  let ?loop = "archiveLoop fails pageOrder now cutoff b (length (olderThan cutoff (live st))) st 0 0"
  have "stopsAtFailure fails (outcome ?loop) (trace ?loop)"
    by (rule archiveLoop_stopsAtFailure)
  with loop_fails show ?thesis
    by (auto simp: stopsAtFailure_def completed_def outcome_def trace_def)
next
  case (delete_fails cnt)
  let ?loop = "archiveLoop fails pageOrder now cutoff b (length (olderThan cutoff (live st))) st 0 0"
  have "stopsAtFailure fails (outcome ?loop) (trace ?loop)"
    by (rule archiveLoop_stopsAtFailure)
  with delete_fails show ?thesis
    by (auto simp: stopsAtFailure_def completed_def outcome_def trace_def)
next
  case (deleted cnt)
  let ?loop = "archiveLoop fails pageOrder now cutoff b (length (olderThan cutoff (live st))) st 0 0"
  have "stopsAtFailure fails (outcome ?loop) (trace ?loop)"
    by (rule archiveLoop_stopsAtFailure)
  with deleted show ?thesis
    by (auto simp: stopsAtFailure_def completed_def outcome_def trace_def)
qed (simp_all add: stopsAtFailure_def completed_def outcome_def trace_def)

lemma insertedBatches_append:
  "insertedBatches (xs @ ys) = insertedBatches xs @ insertedBatches ys"
  by (induction xs rule: insertedBatches.induct) simp_all

lemma archiveOldData_archive:
  fixes st :: "'d store"
  shows "archive (storeOf (archiveOldData fails pageOrder now cutoff b st)) =
         archiveAll now (archive st)
           (insertedBatches (completed (outcome (archiveOldData fails pageOrder now cutoff b st))
                                       (trace (archiveOldData fails pageOrder now cutoff b st))))"
proof (cases rule: archiveOldData_cases [of fails pageOrder now cutoff b st])
  case (loop_fails e)
  let ?loop = "archiveLoop fails pageOrder now cutoff b (length (olderThan cutoff (live st))) st 0 0"
  have "trace ?loop \<noteq> []"
    using archiveLoop_stopsAtFailure [of fails pageOrder now cutoff b _ st 0 0] loop_fails(4)
    by (simp add: stopsAtFailure_def)
  with loop_fails show ?thesis
    using archiveLoop_archive [of fails pageOrder now cutoff b _ st 0 0]
    by (simp add: completed_def outcome_def trace_def storeOf_def)
next
  case (delete_fails cnt)
  then show ?thesis
    using archiveLoop_archive [of fails pageOrder now cutoff b _ st 0 0]
    by (simp add: completed_def outcome_def trace_def storeOf_def butlast_append)
next
  case (deleted cnt)
  then show ?thesis
    using archiveLoop_archive [of fails pageOrder now cutoff b _ st 0 0]
    by (simp add: completed_def outcome_def trace_def storeOf_def insertedBatches_append)
qed (simp_all add: completed_def outcome_def trace_def storeOf_def archiveAll_def)

lemma archiveOldData_live_on_error:
  fixes st :: "'d store"
  assumes "isl (outcome (archiveOldData fails pageOrder now cutoff b st))"
  shows "live (storeOf (archiveOldData fails pageOrder now cutoff b st)) = live st"
proof (cases rule: archiveOldData_cases [of fails pageOrder now cutoff b st])
  case (loop_fails e)
  then show ?thesis
    using archiveLoop_live [of fails pageOrder now cutoff b _ st 0 0] by (simp add: storeOf_def)
next
  case (delete_fails cnt)
  then show ?thesis
    using archiveLoop_live [of fails pageOrder now cutoff b _ st 0 0] by (simp add: storeOf_def)
next
  case (deleted cnt)
  with assms show ?thesis by (simp add: outcome_def)
qed (simp_all add: storeOf_def)

lemma archiveOldData_delete_is_last:
  fixes st :: "'d store"
  shows "DeleteOld \<notin> set (butlast (trace (archiveOldData fails pageOrder now cutoff b st)))"
proof (cases rule: archiveOldData_cases [of fails pageOrder now cutoff b st])
  case (loop_fails e)
  then show ?thesis
    using archiveLoop_ops [of fails pageOrder now cutoff b _ st 0 0]
    by (auto simp: trace_def dest: in_set_butlastD)
next
  case (delete_fails cnt)
  then show ?thesis
    using archiveLoop_ops [of fails pageOrder now cutoff b _ st 0 0]
    by (auto simp: trace_def butlast_append dest: in_set_butlastD)
next
  case (deleted cnt)
  then show ?thesis
    using archiveLoop_ops [of fails pageOrder now cutoff b _ st 0 0]
    by (auto simp: trace_def butlast_append dest: in_set_butlastD)
qed (simp_all add: trace_def)

lemma archiveAll_ids:
  "set (archivedIds (archiveAll now arch batches)) =
   set (archivedIds arch) \<union> cost_id ` (\<Union>recs \<in> set batches. set recs)"
proof (induction batches arbitrary: arch)
  case Nil
  then show ?case by (simp add: archiveAll_def)
next
  case (Cons recs batches)
  have "archiveAll now arch (recs # batches) = archiveAll now (insertIgnore now recs arch) batches"
    by (simp add: archiveAll_def)
  then show ?case
    using Cons.IH [of "insertIgnore now recs arch"] by (auto simp: insertIgnore_ids)
qed

text \<open>
  Claim C2. When a run attempts the archive write of a batch and that write fails, the
  run ends with that error, the bulk delete is not among the operations of the run, the
  live store is as it was, and the archive store holds what the inserts of all earlier
  batches of the run put there, in particular every record of those batches.
\<close>

theorem failed_batch_write_stops_before_delete:
  fixes st :: "'d store"
  assumes attempted: "InsertArchive batch \<in> set (trace (archiveOldData fails pageOrder now cutoff b st))"
    and failed: "fails (InsertArchive batch)"
  shows "outcome (archiveOldData fails pageOrder now cutoff b st) = Inl (StoreError (InsertArchive batch))
       \<and> DeleteOld \<notin> set (trace (archiveOldData fails pageOrder now cutoff b st))
       \<and> live (storeOf (archiveOldData fails pageOrder now cutoff b st)) = live st
       \<and> archive (storeOf (archiveOldData fails pageOrder now cutoff b st)) =
           archiveAll now (archive st)
             (insertedBatches (butlast (trace (archiveOldData fails pageOrder now cutoff b st))))
       \<and> (\<forall>recs \<in> set (insertedBatches (butlast (trace (archiveOldData fails pageOrder now cutoff b st)))).
            \<forall>r \<in> set recs.
              cost_id r \<in> set (archivedIds (archive (storeOf (archiveOldData fails pageOrder now cutoff b st)))))"
proof -
  let ?run = "archiveOldData fails pageOrder now cutoff b st"
  have stops: "stopsAtFailure fails (outcome ?run) (trace ?run)"
    by (rule archiveOldData_stopsAtFailure)
  have err: "isl (outcome ?run)"
  proof (rule ccontr)
    assume "\<not> isl (outcome ?run)"
    with stops have "\<forall>op \<in> set (trace ?run). \<not> fails op"
      by (simp add: stopsAtFailure_def completed_def)
    with attempted failed show False by blast
  qed
  with stops have ne: "trace ?run \<noteq> []"
    and out: "outcome ?run = Inl (StoreError (last (trace ?run)))"
    and before: "\<forall>op \<in> set (butlast (trace ?run)). \<not> fails op"
    by (simp_all add: stopsAtFailure_def completed_def)
  from ne have mem: "op \<in> set (trace ?run) \<longleftrightarrow>
                       op \<in> set (butlast (trace ?run)) \<or> op = last (trace ?run)" for op
    by (cases "trace ?run" rule: rev_cases) auto
  have last: "last (trace ?run) = InsertArchive batch"
    using attempted failed before mem [of "InsertArchive batch"] by auto
  have nodel: "DeleteOld \<notin> set (trace ?run)"
    using archiveOldData_delete_is_last [of fails pageOrder now cutoff b st] mem [of DeleteOld] last
    by auto
  have arch: "archive (storeOf ?run) =
                archiveAll now (archive st) (insertedBatches (butlast (trace ?run)))"
    using archiveOldData_archive [of fails pageOrder now cutoff b st] err by (simp add: completed_def)
  have ids: "\<forall>recs \<in> set (insertedBatches (butlast (trace ?run))).
               \<forall>r \<in> set recs. cost_id r \<in> set (archivedIds (archive (storeOf ?run)))"
    unfolding arch archiveAll_ids by blast
  from out last nodel archiveOldData_live_on_error [OF err] arch ids show ?thesis
    by simp
qed


theorem failed_batch_write_stops_before_delete_witness:
  "InsertArchive [mkCost 1 ''Salaries'' 5000000 1 2024 50]
     \<in> set (trace (archiveOldData (failsOn (InsertArchive [mkCost 1 ''Salaries'' 5000000 1 2024 50])) tableOrder
                       1000 100 2 fiveOld))
   \<and> failsOn (InsertArchive [mkCost 1 ''Salaries'' 5000000 1 2024 50])
              (InsertArchive [mkCost 1 ''Salaries'' 5000000 1 2024 50])
   \<and> outcome (archiveOldData (failsOn (InsertArchive [mkCost 1 ''Salaries'' 5000000 1 2024 50])) tableOrder
                1000 100 2 fiveOld)
       = Inl (StoreError (InsertArchive [mkCost 1 ''Salaries'' 5000000 1 2024 50]))
   \<and> DeleteOld \<notin> set (trace (archiveOldData
         (failsOn (InsertArchive [mkCost 1 ''Salaries'' 5000000 1 2024 50])) tableOrder 1000 100 2 fiveOld))
   \<and> live (storeOf (archiveOldData
         (failsOn (InsertArchive [mkCost 1 ''Salaries'' 5000000 1 2024 50])) tableOrder 1000 100 2 fiveOld))
       = live fiveOld"
proof -
  have attempted:
    "InsertArchive [mkCost 1 ''Salaries'' 5000000 1 2024 50]
       \<in> set (trace (archiveOldData (failsOn (InsertArchive [mkCost 1 ''Salaries'' 5000000 1 2024 50])) tableOrder
                         1000 100 2 fiveOld))"
    by code_simp
  have failed:
    "failsOn (InsertArchive [mkCost 1 ''Salaries'' 5000000 1 2024 50])
       (InsertArchive [mkCost 1 ''Salaries'' 5000000 1 2024 50])"
    by (simp add: failsOn_def)
  from failed_batch_write_stops_before_delete [OF attempted failed] attempted failed
  show ?thesis by blast
qed


subsection \<open>A run without faults\<close>



lemma tableOrder_byCreatedAt: "byCreatedAt tableOrder"
  by (simp add: byCreatedAt_def tableOrder_def)















text \<open>Running twice\<close>

lemma archiveAll_distinct:
  "distinct (archivedIds arch) \<Longrightarrow> distinct (archivedIds (archiveAll now arch batches))"
proof (induction batches arbitrary: arch)
  case Nil
  then show ?case by (simp add: archiveAll_def)
next
  case (Cons recs batches)
  have "archiveAll now arch (recs # batches) = archiveAll now (insertIgnore now recs arch) batches"
    by (simp add: archiveAll_def)
  with Cons show ?case by (simp add: insertIgnore_distinct)
qed

lemma archiveOldData_nothing_old:
  fixes st :: "'d store"
  assumes "\<not> fails EnsureArchiveTable" "\<not> fails CountOld" "olderThan cutoff (live st) = []"
  shows "archiveOldData fails pageOrder now cutoff b st =
           (Inr \<lparr>archivedCount = 0, deletedCount = 0, cutoffDate = cutoff\<rparr>, st,
            [EnsureArchiveTable, CountOld])"
  using assms by (simp add: archiveOldData_def)

lemma archiveOldData_success_leaves_nothing_old:
  fixes st :: "'d store"
  assumes "outcome (archiveOldData fails pageOrder now cutoff b st) = Inr res"
  shows "olderThan cutoff (live (storeOf (archiveOldData fails pageOrder now cutoff b st))) = []"
proof (cases rule: archiveOldData_cases [of fails pageOrder now cutoff b st])
  case none_old
  then show ?thesis by (simp add: storeOf_def)
next
  case (deleted cnt)
  then show ?thesis by (simp add: storeOf_def olderThan_def)
qed (use assms in \<open>simp_all add: outcome_def\<close>)

text \<open>
  Claim C3. Let the ids of the archive be distinct, as its primary key has it. After a
  run that completed, a second run with the same cutoff on the store it left (whose table
  check and count succeed) returns the counts 0 and 0 and changes nothing. The archive
  after the first run is what its batches inserted, and after each of these batches the
  ids of the archive are still distinct.
\<close>

theorem archiving_twice_archives_nothing_new:
  fixes st :: "'d store"
  assumes pk: "distinct (archivedIds (archive st))"
    and first: "outcome (archiveOldData fails1 pageOrder1 now1 cutoff b1 st) = Inr res"
    and second: "\<not> fails2 EnsureArchiveTable" "\<not> fails2 CountOld"
  shows "archiveOldData fails2 pageOrder2 now2 cutoff b2 (storeOf (archiveOldData fails1 pageOrder1 now1 cutoff b1 st)) =
           (Inr \<lparr>archivedCount = 0, deletedCount = 0, cutoffDate = cutoff\<rparr>,
            storeOf (archiveOldData fails1 pageOrder1 now1 cutoff b1 st), [EnsureArchiveTable, CountOld])
       \<and> archive (storeOf (archiveOldData fails1 pageOrder1 now1 cutoff b1 st)) =
           archiveAll now1 (archive st) (insertedBatches (trace (archiveOldData fails1 pageOrder1 now1 cutoff b1 st)))
       \<and> (\<forall>k. distinct (archivedIds (archiveAll now1 (archive st)
                  (take k (insertedBatches (trace (archiveOldData fails1 pageOrder1 now1 cutoff b1 st)))))))"
proof -
  let ?run = "archiveOldData fails1 pageOrder1 now1 cutoff b1 st"
  have 1: "archiveOldData fails2 pageOrder2 now2 cutoff b2 (storeOf ?run) =
             (Inr \<lparr>archivedCount = 0, deletedCount = 0, cutoffDate = cutoff\<rparr>, storeOf ?run,
              [EnsureArchiveTable, CountOld])"
    using second archiveOldData_success_leaves_nothing_old [OF first]
    by (rule archiveOldData_nothing_old)
  have 2: "archive (storeOf ?run) = archiveAll now1 (archive st) (insertedBatches (trace ?run))"
    using archiveOldData_archive [of fails1 pageOrder1 now1 cutoff b1 st] first
    by (simp add: completed_def)
  have 3: "\<forall>k. distinct (archivedIds (archiveAll now1 (archive st)
                  (take k (insertedBatches (trace ?run)))))"
    using pk by (simp add: archiveAll_distinct)
  from 1 2 3 show ?thesis by blast
qed

theorem archiving_twice_archives_nothing_new_witness:
  "distinct (archivedIds (archive fiveOld))
   \<and> outcome (archiveOldData noFaults tableOrder 1000 100 2 fiveOld) =
       Inr \<lparr>archivedCount = 5, deletedCount = 5, cutoffDate = 100\<rparr>
   \<and> archiveOldData noFaults tableOrder 2000 100 2 (storeOf (archiveOldData noFaults tableOrder 1000 100 2 fiveOld)) =
       (Inr \<lparr>archivedCount = 0, deletedCount = 0, cutoffDate = 100\<rparr>,
        storeOf (archiveOldData noFaults tableOrder 1000 100 2 fiveOld), [EnsureArchiveTable, CountOld])
   \<and> archivedIds (archive (storeOf (archiveOldData noFaults tableOrder 1000 100 2 fiveOld))) = [2, 5, 3, 4, 1]"
proof -
  have pk: "distinct (archivedIds (archive fiveOld))"
    by (simp add: fiveOld_def archivedIds_def)
  have first: "outcome (archiveOldData noFaults tableOrder 1000 100 2 fiveOld) =
                 Inr \<lparr>archivedCount = 5, deletedCount = 5, cutoffDate = 100\<rparr>"
    by code_simp
  have ids: "archivedIds (archive (storeOf (archiveOldData noFaults tableOrder 1000 100 2 fiveOld))) = [2, 5, 3, 4, 1]"
    by code_simp
  have second: "\<not> noFaults (EnsureArchiveTable :: int store_op)" "\<not> noFaults (CountOld :: int store_op)"
    by (simp_all add: noFaults_def)
  from archiving_twice_archives_nothing_new [OF pk first second, of tableOrder 2000 2] pk first ids
  show ?thesis by simp
qed

section \<open>Properties of the restore\<close>

subsection \<open>Upserts\<close>

lemma upsert_ids:
  "map cost_id (upsert now a lv) =
     (if cost_id a \<in> set (map cost_id lv) then map cost_id lv else map cost_id lv @ [cost_id a])"
  by (induction lv) auto

lemma upsert_distinct:
  "distinct (map cost_id lv) \<Longrightarrow> distinct (map cost_id (upsert now a lv))"
  by (simp add: upsert_ids)

lemma upsert_other:
  "r \<in> set lv \<Longrightarrow> cost_id r \<noteq> cost_id a \<Longrightarrow> r \<in> set (upsert now a lv)"
  by (induction lv) auto


lemma upsert_update:
  "r \<in> set lv \<Longrightarrow> cost_id r = cost_id a \<Longrightarrow> distinct (map cost_id lv) \<Longrightarrow>
   r\<lparr>category := category a, amount := amount a, month := month a, year := year a,
      updatedAt := now\<rparr> \<in> set (upsert now a lv)"
  by (induction lv) (auto simp: image_iff)

lemma upsertAll_Cons: "upsertAll now (a # as) lv = upsertAll now as (upsert now a lv)"
  by (simp add: upsertAll_def)

lemma upsertAll_distinct:
  "distinct (map cost_id lv) \<Longrightarrow> distinct (map cost_id (upsertAll now records lv))"
  by (induction records arbitrary: lv) (simp_all add: upsertAll_def upsert_distinct)

lemma upsertAll_other:
  "r \<in> set lv \<Longrightarrow> cost_id r \<notin> cost_id ` set records \<Longrightarrow> r \<in> set (upsertAll now records lv)"
  by (induction records arbitrary: lv) (simp_all add: upsertAll_def upsert_other)

lemma upsert_id_set:
  "cost_id ` set (upsert now a lv) = insert (cost_id a) (cost_id ` set lv)"
proof -
  have "set (map cost_id (upsert now a lv)) = insert (cost_id a) (set (map cost_id lv))"
    unfolding upsert_ids by auto
  then show ?thesis by simp
qed

lemma upsertAll_ids:
  "cost_id ` set (upsertAll now records lv) = cost_id ` set lv \<union> cost_id ` set records"
proof (induction records arbitrary: lv)
  case Nil
  then show ?case by (simp add: upsertAll_def)
next
  case (Cons a records)
  show ?case
    unfolding upsertAll_Cons Cons.IH upsert_id_set by auto
qed


lemma upsertAll_updates:
  assumes "a \<in> set records" "distinct (map cost_id records)" "r \<in> set lv"
    "cost_id r = cost_id a" "distinct (map cost_id lv)"
  shows "r\<lparr>category := category a, amount := amount a, month := month a, year := year a,
           updatedAt := now\<rparr> \<in> set (upsertAll now records lv)"
  using assms
proof (induction records arbitrary: lv)
  case Nil
  then show ?case by simp
next
  case (Cons x records)
  show ?case
  proof (cases "x = a")
    case True
    let ?r' = "r\<lparr>category := category a, amount := amount a, month := month a, year := year a,
                  updatedAt := now\<rparr>"
    from True Cons.prems have "?r' \<in> set (upsert now x lv)"
      by (simp add: upsert_update)
    moreover from True Cons.prems have "cost_id ?r' \<notin> cost_id ` set records"
      by auto
    ultimately show ?thesis
      unfolding upsertAll_Cons by (rule upsertAll_other)
  next
    case False
    with Cons.prems have a: "a \<in> set records" and ne: "cost_id x \<noteq> cost_id a"
      by auto
    have "r \<in> set (upsert now x lv)"
      using Cons.prems(3,4) ne by (simp add: upsert_other)
    with Cons.IH [OF a, of "upsert now x lv"] Cons.prems(2,4,5) show ?thesis
      unfolding upsertAll_Cons by (simp add: upsert_distinct)
  qed
qed

lemma restoreLoop_noFaults:
  assumes "\<And>op. \<not> fails op"
  shows "restoreLoop fails now records lv =
           (Inr (), upsertAll now records lv, map (\<lambda>a. UpsertCost (cost_id a)) records)"
  using assms by (induction records arbitrary: lv) (simp_all add: upsertAll_def)

lemma restoreFromArchive_noFaults:
  fixes st :: "'d store"
  assumes "\<And>op. \<not> fails op"
  shows "restoreFromArchive fails now startDate endDate st =
           (Inr (length (selectArchive startDate endDate (archive st))),
            st\<lparr>live := upsertAll now (selectArchive startDate endDate (archive st)) (live st)\<rparr>,
            SelectArchive # map (\<lambda>a. UpsertCost (cost_id a)) (selectArchive startDate endDate (archive st)))"
  using assms
  by (cases "selectArchive startDate endDate (archive st) = []")
     (simp_all add: restoreFromArchive_def restoreLoop_noFaults upsertAll_def)

lemma selectArchive_ids_distinct:
  "distinct (archivedIds arch) \<Longrightarrow> distinct (map cost_id (selectArchive startDate endDate arch))"
  by (simp add: selectArchive_def archivedIds_def distinct_map_filter comp_def)

lemma selectArchive_member:
  "(a, t) \<in> set arch \<Longrightarrow> startDate \<le> createdAt a \<Longrightarrow> createdAt a \<le> endDate \<Longrightarrow>
   a \<in> set (selectArchive startDate endDate arch)"
  by (force simp: selectArchive_def)

text \<open>
  Claim C4, as amended. Neither \<open>restoreFromArchive\<close> nor the handler of the route
  compares the two dates. When \<open>endDate < startDate\<close> no archive row lies in the range:
  the call returns 0 and the handler answers 200 with the count 0 (or the call raises the
  error of the archive query, when that query fails, and the handler answers 500), and
  both stores are as they were.
\<close>

theorem restore_reversed_range_restores_nothing:
  fixes st :: "'d store"
  assumes "endDate < startDate"
  shows "restoreFromArchive fails now startDate endDate st =
           (if fails SelectArchive then (Inl (StoreError SelectArchive), st, [SelectArchive])
            else (Inr 0, st, [SelectArchive]))
       \<and> restoreRoute fails now (Parsed startDate) (Parsed endDate) st =
           (if fails SelectArchive
            then (Status500 ''Failed to restore from archive'', st, [SelectArchive])
            else (Status200 0 startDate endDate, st, [SelectArchive]))"
proof -
  have "selectArchive startDate endDate (archive st) = []"
    using assms by (auto simp: selectArchive_def filter_empty_conv)
  then have "restoreFromArchive fails now startDate endDate st =
           (if fails SelectArchive then (Inl (StoreError SelectArchive), st, [SelectArchive])
            else (Inr 0, st, [SelectArchive]))"
    by (simp add: restoreFromArchive_def)
  then show ?thesis
    by (simp add: restoreRoute_def)
qed

theorem restore_reversed_range_restores_nothing_witness:
  "(0::int) < 100
   \<and> restoreFromArchive noFaults 2000 100 0 collidingRow = (Inr 0, collidingRow, [SelectArchive])
   \<and> restoreRoute noFaults 2000 (Parsed 100) (Parsed 0) collidingRow =
       (Status200 0 100 0, collidingRow, [SelectArchive])"
proof -
  have lt: "(0::int) < 100"
    by simp
  from restore_reversed_range_restores_nothing [OF lt, of noFaults 2000 collidingRow] lt
  show ?thesis by (simp add: noFaults_def)
qed

text \<open>
  The claim as stated asks for an error; on the store \<open>collidingRow\<close>, with the end of
  the range before its start, the call returns 0.
\<close>

theorem restore_reversed_range_counterexample:
  "(0::int) < 100
   \<and> outcome (restoreFromArchive noFaults 2000 100 0 collidingRow) = Inr 0
   \<and> outcome (restoreRoute noFaults 2000 (Parsed 100) (Parsed 0) collidingRow) = Status200 0 100 0"
  by code_simp

text \<open>
  Claim C9, as amended. When nothing fails and a row of the archive in the range has the
  id of a live record, the restore writes the category, amount, month and year of the
  archive row into that record and sets its \<open>updatedAt\<close>; its id and \<open>createdAt\<close>
  stay, and it is the only live record with this id. (Ids are distinct in both tables.)
\<close>

theorem restore_collision_overwrites_four_fields:
  fixes st :: "'d store"
  assumes ok: "\<forall>op. \<not> fails op"
    and live_pk: "distinct (map cost_id (live st))"
    and archive_pk: "distinct (archivedIds (archive st))"
    and r: "r \<in> set (live st)"
    and a: "(a, t) \<in> set (archive st)"
    and collision: "cost_id a = cost_id r"
    and range: "startDate \<le> createdAt a" "createdAt a \<le> endDate"
  shows "r\<lparr>category := category a, amount := amount a, month := month a, year := year a,
           updatedAt := now\<rparr>
           \<in> set (live (storeOf (restoreFromArchive fails now startDate endDate st)))
       \<and> (\<forall>r' \<in> set (live (storeOf (restoreFromArchive fails now startDate endDate st))).
            cost_id r' = cost_id r \<longrightarrow>
            r' = r\<lparr>category := category a, amount := amount a, month := month a, year := year a,
                    updatedAt := now\<rparr>)"
proof -
  let ?records = "selectArchive startDate endDate (archive st)"
  let ?r' = "r\<lparr>category := category a, amount := amount a, month := month a, year := year a,
                updatedAt := now\<rparr>"
  from ok have ok': "\<And>op. \<not> fails op" by simp
  have lv: "live (storeOf (restoreFromArchive fails now startDate endDate st)) =
              upsertAll now ?records (live st)"
    by (simp add: restoreFromArchive_noFaults [OF ok'] storeOf_def)
  have mem: "a \<in> set ?records"
    using a range by (rule selectArchive_member)
  have 1: "?r' \<in> set (upsertAll now ?records (live st))"
    using mem selectArchive_ids_distinct [OF archive_pk] r collision [symmetric] live_pk
    by (rule upsertAll_updates)
  have "distinct (map cost_id (upsertAll now ?records (live st)))"
    using live_pk by (rule upsertAll_distinct)
  with 1 have 2: "\<forall>r' \<in> set (upsertAll now ?records (live st)). cost_id r' = cost_id r \<longrightarrow> r' = ?r'"
    by (auto simp: distinct_map inj_on_def)
  from 1 2 show ?thesis unfolding lv by blast
qed

theorem restore_collision_overwrites_four_fields_witness:
  "(mkCost 1 ''Salaries'' 20000 1 2024 50)
      \<lparr>category := ''Marketing'', amount := 10000, month := 2, year := 2025, updatedAt := 2000\<rparr>
     \<in> set (live (storeOf (restoreFromArchive noFaults 2000 0 100 collidingRow)))"
proof -
  have ok: "\<forall>op :: int store_op. \<not> noFaults op"
    by (simp add: noFaults_def)
  have live_pk: "distinct (map cost_id (live collidingRow))"
    by (simp add: collidingRow_def)
  have archive_pk: "distinct (archivedIds (archive collidingRow))"
    by (simp add: collidingRow_def archivedIds_def)
  have r: "mkCost 1 ''Salaries'' 20000 1 2024 50 \<in> set (live collidingRow)"
    by (simp add: collidingRow_def)
  have a: "(mkCost 1 ''Marketing'' 10000 2 2025 60, 900) \<in> set (archive collidingRow)"
    by (simp add: collidingRow_def)
  have collision: "cost_id (mkCost 1 ''Marketing'' 10000 2 2025 60)
                     = cost_id (mkCost 1 ''Salaries'' 20000 1 2024 50)"
    by (simp add: mkCost_def)
  have range: "0 \<le> createdAt (mkCost 1 ''Marketing'' 10000 2 2025 60)"
    "createdAt (mkCost 1 ''Marketing'' 10000 2 2025 60) \<le> 100"
    by (simp_all add: mkCost_def)
  from restore_collision_overwrites_four_fields [OF ok live_pk archive_pk r a collision range, of 2000]
  show ?thesis by (simp add: mkCost_def)
qed

text \<open>
  The claim as stated keeps category, month and year: on \<open>collidingRow\<close> the restore
  changes all three.
\<close>

theorem restore_collision_counterexample:
  "live collidingRow =
     [\<lparr>cost_id = 1, category = ''Salaries'', amount = 20000, month = 1, year = 2024,
       createdAt = 50, updatedAt = 50\<rparr>]
   \<and> live (storeOf (restoreFromArchive noFaults 2000 0 100 collidingRow)) =
     [\<lparr>cost_id = 1, category = ''Marketing'', amount = 10000, month = 2, year = 2025,
       createdAt = 50, updatedAt = 2000\<rparr>]"
  by code_simp











section \<open>Properties of the range resolution\<close>

lemma monthKeyValid_nonzero: "monthKeyValid m \<Longrightarrow> m \<noteq> Some 0"
  by (auto simp: monthKeyValid_def)

lemma truthy_given: "m \<noteq> Some 0 \<Longrightarrow> truthy m \<longleftrightarrow> m \<noteq> None"
  by (cases m) (simp_all add: truthy_def)

lemma matchOpt_simps:
  "matchOpt None v"
  "matchOpt (Some (Equals x)) v \<longleftrightarrow> v = x"
  "matchOpt (Some (Bounds g ge l le)) v \<longleftrightarrow>
     holdsBound (\<lambda>a b. a > b) g v \<and> holdsBound (\<lambda>a b. a \<ge> b) ge v \<and>
     holdsBound (\<lambda>a b. a < b) l v \<and> holdsBound (\<lambda>a b. a \<le> b) le v"
  by (simp_all add: matchOpt_def)

lemma holdsBound_simps:
  "holdsBound rel None v" "holdsBound rel (Some x) v \<longleftrightarrow> rel v x"
  by (simp_all add: holdsBound_def)

lemma dateConditions_match:
  assumes "startYear q < endYear q" "startMonth q \<noteq> Some 0" "endMonth q \<noteq> Some 0"
  shows "list_ex (\<lambda>c. matchCondition c r) (dateConditions q) \<longleftrightarrow>
         threePartUnion q (year r) (month r)"
  using assms
  by (cases "startMonth q"; cases "endMonth q")
     (auto simp: dateConditions_def truthy_def matchCondition_def matchOpt_simps holdsBound_simps
        threePartUnion_def fromStartMonth_def uptoEndMonth_def)

lemma threePartUnion_inSpan:
  "startYear q < endYear q \<Longrightarrow> threePartUnion q y m \<longleftrightarrow> inSpan q y m"
  by (auto simp: threePartUnion_def inSpan_def)

text \<open>
  Claim C5. For a request with \<open>startYear < endYear\<close> (its months, when given, not
  0, as the schema has it), the \<open>where\<close> object has no filter on year or month but the
  \<open>OR\<close> list \<open>dateConditions\<close>, and a record matches it exactly when its period is in
  the three-part union (and its category is the one asked for, if any); the three-part
  union is the inclusive span from the start to the end of the request.
\<close>

theorem multi_year_range_is_three_part_union:
  assumes "startYear q < endYear q" "startMonth q \<noteq> Some 0" "endMonth q \<noteq> Some 0"
  shows "(matchWhere (trendsWhere q) r \<longleftrightarrow>
            threePartUnion q (year r) (month r) \<and> categoryWanted q (category r))
       \<and> (threePartUnion q (year r) (month r) \<longleftrightarrow> inSpan q (year r) (month r))
       \<and> w_year (trendsWhere q) = None \<and> w_month (trendsWhere q) = None
       \<and> w_OR (trendsWhere q) = Some (dateConditions q)"
proof -
  have "matchWhere (trendsWhere q) r \<longleftrightarrow>
          list_ex (\<lambda>c. matchCondition c r) (dateConditions q) \<and> categoryWanted q (category r)"
    using assms(1)
    by (cases "q_category q")
       (auto simp: matchWhere_def trendsWhere_def matchOpt_simps categoryWanted_def truthyStr_def)
  moreover have "w_year (trendsWhere q) = None" "w_month (trendsWhere q) = None"
    "w_OR (trendsWhere q) = Some (dateConditions q)"
    using assms(1) by (simp_all add: trendsWhere_def)
  ultimately show ?thesis
    using dateConditions_match [OF assms, of r] threePartUnion_inSpan [OF assms(1)]
    by blast
qed


theorem multi_year_range_is_three_part_union_witness:
  "matchWhere (trendsWhere q2324) (mkCost 1 ''Salaries'' 100 12 2023 0)
   \<and> matchWhere (trendsWhere q2324) (mkCost 2 ''Salaries'' 100 1 2024 0)
   \<and> \<not> matchWhere (trendsWhere q2324) (mkCost 3 ''Salaries'' 100 10 2023 0)
   \<and> \<not> matchWhere (trendsWhere q2324) (mkCost 4 ''Salaries'' 100 3 2024 0)"
proof -
  have years: "startYear q2324 < endYear q2324"
    by (simp add: q2324_def)
  have months: "startMonth q2324 \<noteq> Some 0" "endMonth q2324 \<noteq> Some 0"
    by (simp_all add: q2324_def)
  note range = multi_year_range_is_three_part_union [OF years months]
  from range [of "mkCost 1 ''Salaries'' 100 12 2023 0"]
    range [of "mkCost 2 ''Salaries'' 100 1 2024 0"]
    range [of "mkCost 3 ''Salaries'' 100 10 2023 0"]
    range [of "mkCost 4 ''Salaries'' 100 3 2024 0"]
  show ?thesis
    by (simp add: q2324_def mkCost_def threePartUnion_def fromStartMonth_def uptoEndMonth_def
          categoryWanted_def truthyStr_def)
qed

text \<open>
  Claim C6. On a value whose months, when given, are not 0 (the key rules of the schema
  ask for 1 to 12), the ordering rule fails with \<open>any.invalid\<close> exactly when the range
  is disordered, and returns the value otherwise.
\<close>

theorem range_error_exactly_when_disordered:
  assumes "startMonth q \<noteq> Some 0" "endMonth q \<noteq> Some 0"
  shows "(rangeDisordered q \<longrightarrow> (\<exists>msg. trendsCustom q = Inl (AnyInvalid msg)))
       \<and> (\<not> rangeDisordered q \<longrightarrow> trendsCustom q = Inr q)"
proof -
  have "monthBefore (endMonth q) (startMonth q) \<Longrightarrow> truthy (startMonth q) \<and> truthy (endMonth q)"
    using assms by (auto simp: monthBefore_def truthy_def split: option.splits)
  then show ?thesis
    by (auto simp: rangeDisordered_def trendsCustom_def)
qed

theorem range_error_exactly_when_disordered_witness:
  "(\<exists>msg. trendsCustom (q2324\<lparr>endYear := 2022\<rparr>) = Inl (AnyInvalid msg))
   \<and> (\<exists>msg. trendsCustom (q2324\<lparr>endYear := 2023\<rparr>) = Inl (AnyInvalid msg))
   \<and> trendsCustom q2324 = Inr q2324"
proof -
  have months: "startMonth (q2324\<lparr>endYear := y\<rparr>) \<noteq> Some 0"
    "endMonth (q2324\<lparr>endYear := y\<rparr>) \<noteq> Some 0" for y
    by (simp_all add: q2324_def)
  have "rangeDisordered (q2324\<lparr>endYear := 2022\<rparr>)" "rangeDisordered (q2324\<lparr>endYear := 2023\<rparr>)"
    "\<not> rangeDisordered (q2324\<lparr>endYear := 2024\<rparr>)"
    by (simp_all add: rangeDisordered_def q2324_def monthBefore_def)
  moreover have "q2324\<lparr>endYear := 2024\<rparr> = q2324"
    by (simp add: q2324_def)
  ultimately show ?thesis
    using range_error_exactly_when_disordered [OF months, of 2022]
      range_error_exactly_when_disordered [OF months, of 2023]
      range_error_exactly_when_disordered [OF months, of 2024]
    by simp
qed

section \<open>Properties of the trend aggregation\<close>

subsection \<open>Printing and reading back a period key\<close>

lemma digit_cases:
  assumes "d < (10::nat)"
  obtains "d = 0" | "d = 1" | "d = 2" | "d = 3" | "d = 4" | "d = 5" | "d = 6" | "d = 7"
    | "d = 8" | "d = 9"
  using assms by atomize_elim presburger

lemma digitChar_isDigit: "d < 10 \<Longrightarrow> isDigit (digitChar d)"
  by (erule digit_cases) (simp_all add: digitChar_def isDigit_def)

lemma digitVal_digitChar: "d < 10 \<Longrightarrow> digitVal (digitChar d) = d"
  by (erule digit_cases) (simp_all add: digitChar_def digitVal_def)

lemma isDigit_plain: "isDigit c \<Longrightarrow> c \<noteq> CHR ''-'' \<and> c \<noteq> CHR ''+'' \<and> \<not> isSpace c"
  by (auto simp: isDigit_def isSpace_def)

lemma natToString_nonempty: "natToString n \<noteq> []"
  by (subst natToString.simps) simp

lemma natToString_digits: "c \<in> set (natToString n) \<Longrightarrow> isDigit c"
proof (induction n arbitrary: c rule: natToString.induct)
  case (1 n)
  show ?case
  proof (cases "n < 10")
    case True
    with "1.prems" show ?thesis
      by (subst (asm) natToString.simps) (simp add: digitChar_isDigit)
  next
    case False
    with "1.prems" have "c \<in> set (natToString (n div 10)) \<or> c = digitChar (n mod 10)"
      by (subst (asm) natToString.simps) auto
    with "1.IH" [OF False] show ?thesis
      by (auto simp: digitChar_isDigit)
  qed
qed

lemma digitsValue_snoc: "digitsValue (ds @ [c]) = 10 * digitsValue ds + digitVal c"
  by (simp add: digitsValue_def)

lemma digitsValue_natToString: "digitsValue (natToString n) = n"
proof (induction n rule: natToString.induct)
  case (1 n)
  show ?case
  proof (cases "n < 10")
    case True
    then show ?thesis
      by (subst natToString.simps) (simp add: digitsValue_def digitVal_digitChar)
  next
    case False
    with "1.IH" show ?thesis
      by (subst natToString.simps) (simp add: digitsValue_snoc digitVal_digitChar)
  qed
qed

lemma digitsValue_leading_zero: "digitsValue (CHR ''0'' # ds) = digitsValue ds"
  by (simp add: digitsValue_def digitVal_def)

lemma parseInt_digits:
  assumes "ds \<noteq> []" "\<forall>c \<in> set ds. isDigit c"
  shows "parseInt ds = Some (int (digitsValue ds))"
proof -
  obtain c cs where ds: "ds = c # cs"
    using assms(1) by (cases ds) auto
  with assms(2) have c: "isDigit c"
    by simp
  have tw: "takeWhile isDigit cs = cs"
    using assms(2) ds by (simp add: takeWhile_eq_all_conv)
  have "parseInt ds = parseUnsigned ds"
    using c isDigit_plain [OF c] by (simp add: ds parseInt_def)
  also have "takeWhile isDigit ds = ds"
    using c by (simp only: ds takeWhile.simps tw if_True)
  then have "parseUnsigned ds = Some (int (digitsValue ds))"
    using assms(1) by (simp only: parseUnsigned_def if_False)
  finally show ?thesis .
qed

lemma splitDash_no_dash: "CHR ''-'' \<notin> set s \<Longrightarrow> splitDash s = [s]"
  by (induction s) auto

lemma splitDash_at_dash:
  "CHR ''-'' \<notin> set a \<Longrightarrow> splitDash (a @ CHR ''-'' # b) = a # splitDash b"
  by (induction a) auto

lemma digits_no_dash: "\<forall>c \<in> set ds. isDigit c \<Longrightarrow> CHR ''-'' \<notin> set ds"
  using isDigit_plain by blast

lemma padStart2_natToString:
  "padStart2 (natToString n) = natToString n \<or> padStart2 (natToString n) = CHR ''0'' # natToString n"
proof (cases "length (natToString n) < 2")
  case True
  moreover have "length (natToString n) \<noteq> 0"
    using natToString_nonempty by simp
  ultimately have "length (natToString n) = 1"
    by linarith
  then show ?thesis
    by (simp add: padStart2_def)
next
  case False
  then show ?thesis by (simp add: padStart2_def)
qed

lemma padStart2_facts:
  "padStart2 (natToString n) \<noteq> []"
  "\<forall>c \<in> set (padStart2 (natToString n)). isDigit c"
  "digitsValue (padStart2 (natToString n)) = n"
proof -
  have zero: "isDigit CHR ''0''"
    by (simp add: isDigit_def)
  show "padStart2 (natToString n) \<noteq> []"
    using padStart2_natToString [of n] natToString_nonempty [of n] by auto
  show "\<forall>c \<in> set (padStart2 (natToString n)). isDigit c"
    using padStart2_natToString [of n] natToString_digits [of _ n] zero by auto
  show "digitsValue (padStart2 (natToString n)) = n"
    using padStart2_natToString [of n] digitsValue_natToString [of n]
    by (auto simp: digitsValue_leading_zero)
qed

lemma monthKey_parts:
  assumes "0 \<le> y" "0 \<le> m"
  shows "splitDash (monthKey y m) = [natToString (nat y), padStart2 (natToString (nat m))]"
proof -
  have "CHR ''-'' \<notin> set (natToString (nat y))"
    using natToString_digits by (intro digits_no_dash) blast
  moreover have "CHR ''-'' \<notin> set (padStart2 (natToString (nat m)))"
    using padStart2_facts(2) by (intro digits_no_dash) blast
  ultimately show ?thesis
    using assms by (simp add: monthKey_def intToString_def splitDash_at_dash splitDash_no_dash)
qed

lemma keyYear_monthKey: "0 \<le> y \<Longrightarrow> 0 \<le> m \<Longrightarrow> keyYear (monthKey y m) = Some y"
  using natToString_nonempty [of "nat y"] natToString_digits [of _ "nat y"]
  by (simp add: keyYear_def monthKey_parts nthOpt_def orZero_def parseInt_digits
        digitsValue_natToString)

lemma keyMonth_monthKey: "0 \<le> y \<Longrightarrow> 0 \<le> m \<Longrightarrow> keyMonth (monthKey y m) = Some m"
  using padStart2_facts [of "nat m"]
  by (simp add: keyMonth_def monthKey_parts nthOpt_def orZero_def parseInt_digits)

subsection \<open>Maps with insertion order\<close>

lemma mapSet_keys:
  "map fst (mapSet k v m) = (if k \<in> fst ` set m then map fst m else map fst m @ [k])"
  by (induction m) auto

lemma mapSet_distinct: "distinct (map fst m) \<Longrightarrow> distinct (map fst (mapSet k v m))"
  by (simp add: mapSet_keys)

lemma mapSet_entry:
  "e \<in> set (mapSet k v m) \<Longrightarrow> e = (k, v) \<or> e \<in> set m"
  by (induction m) (auto split: if_splits)

lemma map_of_mapSet: "map_of (mapSet k v m) = (map_of m)(k \<mapsto> v)"
  by (induction m) (auto simp: fun_eq_iff)

lemma mapSet_twice: "mapSet k v (mapSet k w m) = mapSet k v m"
  by (induction m) auto

subsection \<open>Sorting keeps the elements\<close>

lemma insertBy_set: "set (insertBy after x ys) = insert x (set ys)"
  by (induction ys) auto

lemma insertBy_distinct:
  "distinct (map f (insertBy after x ys)) \<longleftrightarrow> f x \<notin> f ` set ys \<and> distinct (map f ys)"
  by (induction ys) (auto simp: insertBy_set)

lemma sortBy_Cons: "sortBy after (x # xs) = insertBy after x (sortBy after xs)"
  by (simp add: sortBy_def)

lemma sortBy_set: "set (sortBy after xs) = set xs"
  by (induction xs) (simp_all add: sortBy_def insertBy_set)

lemma sortBy_distinct: "distinct (map f (sortBy after xs)) \<longleftrightarrow> distinct (map f xs)"
proof (induction xs)
  case Nil
  then show ?case by (simp add: sortBy_def)
next
  case (Cons x xs)
  then show ?case
    by (simp add: sortBy_Cons insertBy_distinct sortBy_set)
qed

subsection \<open>Groups and their nested maps\<close>

lemma addToGroup_eq:
  "addToGroup key inner amt groups =
     (case map_of groups key of
        None \<Rightarrow> mapSet key (0 + amt, [(inner, 0 + amt)]) groups
      | Some g \<Rightarrow>
          mapSet key (fst g + amt, mapSet inner (getOrZero inner (snd g) + amt) (snd g)) groups)"
  by (cases "map_of groups key")
     (auto simp: addToGroup_def mapHas_def mapGet_def map_of_mapSet mapSet_twice getOrZero_def
        split: prod.splits)

lemma addToGroup_inv:
  assumes "groupsInv K J groups" "K key" "J inner"
  shows "groupsInv K J (addToGroup key inner amt groups)"
proof (cases "map_of groups key")
  case None
  then have eq: "addToGroup key inner amt groups = mapSet key (0 + amt, [(inner, 0 + amt)]) groups"
    by (simp add: addToGroup_eq)
  show ?thesis
    unfolding eq groupsInv_def
  proof (intro conjI ballI)
    show "distinct (map fst (mapSet key (0 + amt, [(inner, 0 + amt)]) groups))"
      using assms(1) by (simp add: groupsInv_def mapSet_distinct)
  next
    fix g assume "g \<in> set (mapSet key (0 + amt, [(inner, 0 + amt)]) groups)"
    then have g: "g = (key, 0 + amt, [(inner, 0 + amt)]) \<or> g \<in> set groups"
      by (rule mapSet_entry)
    from g assms show "K (fst g)" by (auto simp: groupsInv_def)
    from g assms show "distinct (map fst (snd (snd g)))" by (auto simp: groupsInv_def)
    fix j assume "j \<in> fst ` set (snd (snd g))"
    with g assms show "J j" by (auto simp: groupsInv_def)
  qed
next
  case (Some old)
  let ?new = "(fst old + amt, mapSet inner (getOrZero inner (snd old) + amt) (snd old))"
  from Some have eq: "addToGroup key inner amt groups = mapSet key ?new groups"
    by (simp add: addToGroup_eq)
  from Some have old: "(key, old) \<in> set groups"
    by (rule map_of_SomeD)
  with assms(1) have nested: "distinct (map fst (snd old))" "\<forall>j \<in> fst ` set (snd old). J j"
    by (auto simp: groupsInv_def)
  show ?thesis
    unfolding eq groupsInv_def
  proof (intro conjI ballI)
    show "distinct (map fst (mapSet key ?new groups))"
      using assms(1) by (simp add: groupsInv_def mapSet_distinct)
  next
    fix g assume "g \<in> set (mapSet key ?new groups)"
    then have g: "g = (key, ?new) \<or> g \<in> set groups"
      by (rule mapSet_entry)
    from g assms show "K (fst g)" by (auto simp: groupsInv_def)
    from g assms(1) nested(1) show "distinct (map fst (snd (snd g)))"
      by (auto simp: groupsInv_def mapSet_distinct)
    fix j assume j: "j \<in> fst ` set (snd (snd g))"
    show "J j"
    proof (cases "g = (key, ?new)")
      case True
      with j have "j \<in> set (map fst (mapSet inner (getOrZero inner (snd old) + amt) (snd old)))"
        by simp
      then have "j = inner \<or> j \<in> fst ` set (snd old)"
        unfolding mapSet_keys by (auto split: if_splits)
      with nested(2) assms(3) show ?thesis by auto
    next
      case False
      with g j assms(1) show ?thesis by (auto simp: groupsInv_def)
    qed
  qed
qed

lemma foldl_addToGroup_inv:
  assumes "groupsInv K J groups" "\<forall>e \<in> set expenses. K (key e) \<and> J (inner e)"
  shows "groupsInv K J (foldl (\<lambda>gs e. addToGroup (key e) (inner e) (amt e) gs) groups expenses)"
  using assms
  by (induction expenses arbitrary: groups) (simp_all add: addToGroup_inv)

lemma groupsInv_empty: "groupsInv K J []"
  by (simp add: groupsInv_def)

lemma keyPeriod_inj: "periodKey k \<Longrightarrow> periodKey k' \<Longrightarrow> keyPeriod k = keyPeriod k' \<Longrightarrow> k = k'"
  by (auto simp: periodKey_def keyPeriod_def keyYear_monthKey keyMonth_monthKey)

lemma distinct_periods:
  assumes "distinct ks" "\<forall>k \<in> set ks. periodKey k"
  shows "distinct (map keyPeriod ks)"
  using assms keyPeriod_inj by (auto simp: distinct_map inj_on_def)

lemma monthlyMap_inv:
  assumes "\<forall>e \<in> set expenses. 0 \<le> year e \<and> 0 \<le> month e"
  shows "groupsInv periodKey (\<lambda>c. True) (monthlyMap num expenses)"
  unfolding monthlyMap_def
  using assms by (intro foldl_addToGroup_inv groupsInv_empty) (auto simp: periodKey_def)

lemma yearlyMap_inv: "groupsInv (\<lambda>y. True) (\<lambda>c. True) (yearlyMap num expenses)"
  unfolding yearlyMap_def
  by (intro foldl_addToGroup_inv groupsInv_empty) simp

lemma categoryMap_inv:
  assumes "\<forall>e \<in> set expenses. 0 \<le> year e \<and> 0 \<le> month e"
  shows "groupsInv (\<lambda>c. True) periodKey (categoryMap num expenses)"
  unfolding categoryMap_def
  using assms by (intro foldl_addToGroup_inv groupsInv_empty) (auto simp: periodKey_def)

lemma breakdownCategories_of: "breakdownCategories (categoryBreakdownOf cats) = map fst cats"
  by (simp add: breakdownCategories_def categoryBreakdownOf_def comp_def case_prod_unfold)

lemma monthly_keys_unique:
  assumes "\<forall>e \<in> set expenses. 0 \<le> year e \<and> 0 \<le> month e"
  shows "distinct (monthlyKeys (processMonthlyTrends num expenses))"
    and "\<forall>g \<in> set (processMonthlyTrends num expenses).
           distinct (breakdownCategories (mt_categoryBreakdown g))"
proof -
  let ?groups = "monthlyMap num expenses"
  have inv: "groupsInv periodKey (\<lambda>c. True) ?groups"
    using assms by (rule monthlyMap_inv)
  have "distinct (map keyPeriod (map fst ?groups))"
    using inv by (intro distinct_periods) (auto simp: groupsInv_def)
  then show "distinct (monthlyKeys (processMonthlyTrends num expenses))"
    by (simp add: monthlyKeys_def processMonthlyTrends_def sortBy_distinct comp_def
          case_prod_unfold keyPeriod_def)
  show "\<forall>g \<in> set (processMonthlyTrends num expenses).
          distinct (breakdownCategories (mt_categoryBreakdown g))"
    using inv
    by (auto simp: processMonthlyTrends_def sortBy_set breakdownCategories_of groupsInv_def)
qed

lemma yearly_keys_unique:
  shows "distinct (map yt_year (processYearlyTrends num expenses))"
    and "\<forall>g \<in> set (processYearlyTrends num expenses).
           distinct (breakdownCategories (yt_categoryBreakdown g))"
proof -
  let ?groups = "yearlyMap num expenses"
  have inv: "groupsInv (\<lambda>y. True) (\<lambda>c. True) ?groups"
    by (rule yearlyMap_inv)
  then have "distinct (map fst ?groups)"
    by (simp add: groupsInv_def)
  then show "distinct (map yt_year (processYearlyTrends num expenses))"
    by (simp add: processYearlyTrends_def sortBy_distinct comp_def case_prod_unfold)
  show "\<forall>g \<in> set (processYearlyTrends num expenses).
          distinct (breakdownCategories (yt_categoryBreakdown g))"
    using inv
    by (auto simp: processYearlyTrends_def sortBy_set breakdownCategories_of groupsInv_def)
qed

lemma breakdownPeriods_of:
  "distinct (breakdownPeriods (monthlyBreakdownOf months)) \<longleftrightarrow>
   distinct (map keyPeriod (map fst months))"
  by (simp add: breakdownPeriods_def monthlyBreakdownOf_def sortBy_distinct comp_def
        case_prod_unfold keyPeriod_def)

lemma category_keys_unique:
  assumes "\<forall>e \<in> set expenses. 0 \<le> year e \<and> 0 \<le> month e"
  shows "distinct (map ct_category (processCategoryTrends num expenses))"
    and "\<forall>g \<in> set (processCategoryTrends num expenses).
           distinct (breakdownPeriods (ct_monthlyBreakdown g))"
proof -
  let ?groups = "categoryMap num expenses"
  have inv: "groupsInv (\<lambda>c. True) periodKey ?groups"
    using assms by (rule categoryMap_inv)
  then have "distinct (map fst ?groups)"
    by (simp add: groupsInv_def)
  then show "distinct (map ct_category (processCategoryTrends num expenses))"
    by (simp add: processCategoryTrends_def sortBy_distinct comp_def case_prod_unfold)
  have "distinct (map keyPeriod (map fst (snd (snd g))))" if "g \<in> set ?groups" for g
    using inv that by (intro distinct_periods) (auto simp: groupsInv_def)
  then show "\<forall>g \<in> set (processCategoryTrends num expenses).
          distinct (breakdownPeriods (ct_monthlyBreakdown g))"
    by (auto simp: processCategoryTrends_def sortBy_set breakdownPeriods_of)
qed

lemma monthly_three_keys:
  fixes num :: "int \<Rightarrow> 'n::{zero,plus}"
  shows "monthlyKeys (processMonthlyTrends num threeExpenses) =
           [(Some 2024, Some 1), (Some 2024, Some 2)]"
  by code_simp

text \<open>
  Claim C10. For expense records whose year and month are not negative (the schema asks
  for years from 2020 to 2050 and months from 1 to 12), whatever the arithmetic of the
  amounts: no two monthly groups have the same year and month, no two yearly groups the
  same year, no two category groups the same category; no category breakdown has a
  category twice, and no monthly breakdown a year and month twice.
\<close>

theorem trend_keys_are_unique:
  fixes num :: "'d \<Rightarrow> 'n::{zero,plus,minus,ord}"
  assumes "\<forall>e \<in> set expenses. 0 \<le> year e \<and> 0 \<le> month e"
  shows "distinct (monthlyKeys (processMonthlyTrends num expenses))
       \<and> (\<forall>g \<in> set (processMonthlyTrends num expenses).
            distinct (breakdownCategories (mt_categoryBreakdown g)))
       \<and> distinct (map yt_year (processYearlyTrends num expenses))
       \<and> (\<forall>g \<in> set (processYearlyTrends num expenses).
            distinct (breakdownCategories (yt_categoryBreakdown g)))
       \<and> distinct (map ct_category (processCategoryTrends num expenses))
       \<and> (\<forall>g \<in> set (processCategoryTrends num expenses).
            distinct (breakdownPeriods (ct_monthlyBreakdown g)))"
  using monthly_keys_unique [OF assms, of num] yearly_keys_unique [of num expenses]
    category_keys_unique [OF assms, of num]
  by blast

theorem trend_keys_are_unique_witness:
  "distinct (monthlyKeys (processMonthlyTrends decimalNumber threeExpenses))
   \<and> distinct (map yt_year (processYearlyTrends decimalNumber threeExpenses))
   \<and> distinct (map ct_category (processCategoryTrends decimalNumber threeExpenses))
   \<and> monthlyKeys (processMonthlyTrends decimalNumber threeExpenses) =
       [(Some 2024, Some 1), (Some 2024, Some 2)]"
proof -
  have valid: "\<forall>e \<in> set threeExpenses. 0 \<le> year e \<and> 0 \<le> month e"
    by (simp add: threeExpenses_def mkCost_def)
  from trend_keys_are_unique [OF valid, of decimalNumber]
    monthly_three_keys [of decimalNumber]
  show ?thesis by blast
qed

text \<open>
  The bound on the year is needed: the sign of a negative year is read as a separator of
  the key, so that the periods (-5, 1) and (0, 5) are both reported as year 0, month 5.
\<close>

lemma negative_year_key_collides:
  fixes num :: "int \<Rightarrow> 'n::{zero,plus}"
  shows "monthlyKeys (processMonthlyTrends num
     [mkCost 1 ''Salaries'' 100 1 (- 5) 0, mkCost 2 ''Salaries'' 100 5 0 0]) =
   [(Some 0, Some 5), (Some 0, Some 5)]"
  by code_simp

section \<open>Properties of the trend totals\<close>

subsection \<open>Rounding and normal forms\<close>

lemma normalise_zero: "normalise 0 e = Num 0 0"
  by (subst normalise.simps) simp

lemma normalise_shift: "m \<noteq> 0 \<Longrightarrow> normalise (m * 2 ^ j) e = normalise m (e + int j)"
proof (induction j arbitrary: e)
  case 0
  then show ?case by simp
next
  case (Suc j)
  have "normalise (m * 2 ^ Suc j) e = normalise (m * 2 ^ j) (e + 1)"
    using Suc.prems by (subst normalise.simps) simp
  also have "\<dots> = normalise m (e + 1 + int j)"
    using Suc by simp
  finally show ?case by (simp add: ac_simps)
qed

lemma normalise_value:
  "normalise m e = Num m' e' \<Longrightarrow>
   (m = 0 \<and> m' = 0 \<and> e' = 0) \<or> (m \<noteq> 0 \<and> e \<le> e' \<and> m = m' * 2 ^ nat (e' - e))"
proof (induction m e arbitrary: m' e' rule: normalise.induct)
  case (1 m e)
  show ?case
  proof (cases "m = 0")
    case True
    with "1.prems" show ?thesis by (simp add: normalise_zero)
  next
    case nz: False
    show ?thesis
    proof (cases "even m")
      case True
      with nz "1.prems" have rec: "normalise (m div 2) (e + 1) = Num m' e'"
        by (subst (asm) normalise.simps) simp
      from True nz have nz2: "m div 2 \<noteq> 0"
        by presburger
      from "1.IH" [OF nz True rec] nz2 have le: "e + 1 \<le> e'" and v: "m div 2 = m' * 2 ^ nat (e' - (e + 1))"
        by simp_all
      from le have "nat (e' - e) = Suc (nat (e' - (e + 1)))"
        by simp
      moreover from True have "m = 2 * (m div 2)"
        by simp
      ultimately have "m = m' * 2 ^ nat (e' - e)"
        using v by simp
      with le nz show ?thesis by simp
    next
      case False
      with nz "1.prems" have "Num m e = Num m' e'"
        by (subst (asm) normalise.simps) simp
      with nz show ?thesis by simp
    qed
  qed
qed

lemma bitLength_bound: "m < 2 ^ b \<Longrightarrow> bitLength m \<le> b"
proof (induction b arbitrary: m)
  case 0
  then show ?case by (subst bitLength.simps) simp
next
  case (Suc b)
  show ?case
  proof (cases "m \<le> 0")
    case True
    then show ?thesis by (subst bitLength.simps) simp
  next
    case False
    from Suc.prems have "m div 2 < 2 ^ b"
      by simp
    from Suc.IH [OF this] False show ?thesis
      by (subst bitLength.simps) simp
  qed
qed


lemma roundHalfEven_exact: "2 ^ k dvd m \<Longrightarrow> roundHalfEven m k = m div 2 ^ k"
  by (auto simp: roundHalfEven_def mod_eq_0_iff_dvd)

lemma roundTo53_small: "\<bar>m\<bar> < 2 ^ 53 \<Longrightarrow> roundTo53 m e = normalise m e"
proof -
  assume "\<bar>m\<bar> < 2 ^ 53"
  then have "bitLength \<bar>m\<bar> \<le> 53"
    by (rule bitLength_bound)
  then have "bitLength \<bar>m\<bar> - 53 = 0"
    by simp
  moreover have "sgn m * \<bar>m\<bar> = m"
    by (rule sgn_mult_abs)
  ultimately show ?thesis
    by (simp add: roundTo53_def roundHalfEven_def)
qed

lemma normalise_back: "e0 \<le> e \<Longrightarrow> normalise m e = normalise (m * 2 ^ nat (e - e0)) e0"
proof (cases "m = 0")
  case True
  then show ?thesis by (simp add: normalise_zero)
next
  case False
  assume "e0 \<le> e"
  with normalise_shift [OF False, of "nat (e - e0)" e0] show ?thesis by simp
qed

lemma quarterNumber_isQuarters: "isQuarters (quarterNumber q) q"
proof -
  obtain m' e' where n: "normalise q (- 2) = Num m' e'"
    by (cases "normalise q (- 2)") auto
  from normalise_value [OF n] show ?thesis
    by (auto simp: isQuarters_def quarterNumber_def n)
qed

lemma isQuarters_plus:
  assumes a: "isQuarters a q" and b: "isQuarters b q'" and small: "\<bar>q + q'\<bar> < 2 ^ 53"
  shows "a + b = quarterNumber (q + q')"
proof -
  let ?mn = "min (expo a) (expo b)"
  let ?M = "mant a * 2 ^ nat (expo a - ?mn) + mant b * 2 ^ nat (expo b - ?mn)"
  from a b have mn: "- 2 \<le> ?mn"
    by (simp add: isQuarters_def)
  have "nat (expo a - ?mn) + nat (?mn + 2) = nat (expo a + 2)"
    using mn by arith
  then have pa: "(2::int) ^ nat (expo a - ?mn) * 2 ^ nat (?mn + 2) = 2 ^ nat (expo a + 2)"
    by (simp only: flip: power_add)
  have "nat (expo b - ?mn) + nat (?mn + 2) = nat (expo b + 2)"
    using mn by arith
  then have pb: "(2::int) ^ nat (expo b - ?mn) * 2 ^ nat (?mn + 2) = 2 ^ nat (expo b + 2)"
    by (simp only: flip: power_add)
  have "?M * 2 ^ nat (?mn + 2) =
          mant a * (2 ^ nat (expo a - ?mn) * 2 ^ nat (?mn + 2))
          + mant b * (2 ^ nat (expo b - ?mn) * 2 ^ nat (?mn + 2))"
    by (simp add: algebra_simps)
  also have "\<dots> = q + q'"
    unfolding pa pb using a b by (simp add: isQuarters_def)
  finally have quarters: "?M * 2 ^ nat (?mn + 2) = q + q'" .
  have "\<bar>?M\<bar> \<le> \<bar>?M\<bar> * 2 ^ nat (?mn + 2)"
    by (simp add: mult_le_cancel_left1)
  also have "\<dots> = \<bar>?M * 2 ^ nat (?mn + 2)\<bar>"
    by (simp add: abs_mult)
  also have "\<dots> = \<bar>q + q'\<bar>"
    by (simp only: quarters)
  finally have "\<bar>?M\<bar> < 2 ^ 53"
    using small by simp
  then have "roundTo53 ?M ?mn = normalise ?M ?mn"
    by (rule roundTo53_small)
  also have "\<dots> = normalise (?M * 2 ^ nat (?mn - (- 2))) (- 2)"
    using mn by (rule normalise_back)
  also have "\<dots> = normalise (q + q') (- 2)"
    using quarters by simp
  finally show ?thesis
    by (simp add: plus_jsNumber_def exactSum_def quarterNumber_def)
qed

lemma quarterNumber_plus:
  "\<bar>q + q'\<bar> < 2 ^ 53 \<Longrightarrow> quarterNumber q + quarterNumber q' = quarterNumber (q + q')"
  using quarterNumber_isQuarters quarterNumber_isQuarters by (rule isQuarters_plus)

lemma quarterNumber_zero: "quarterNumber 0 = 0"
  by (simp add: quarterNumber_def normalise_zero zero_jsNumber_def)

lemma isQuarters_value:
  assumes "isQuarters a q"
  shows "valueOf a = of_int q / 4"
proof -
  from assms have e: "- 2 \<le> expo a" and q: "q = mant a * 2 ^ nat (expo a + 2)"
    by (simp_all add: isQuarters_def)
  from e consider "0 \<le> expo a" | "expo a = - 1" | "expo a = - 2"
    by linarith
  then show ?thesis
  proof cases
    case 1
    then have "nat (expo a + 2) = nat (expo a) + 2"
      by simp
    with 1 q show ?thesis
      by (simp add: valueOf_def power_add)
  next
    case 2
    with q show ?thesis
      by (simp add: valueOf_def)
  next
    case 3
    with q show ?thesis
      by (simp add: valueOf_def)
  qed
qed

lemma valueOf_quarterNumber: "valueOf (quarterNumber q) = of_int q / 4"
  using quarterNumber_isQuarters by (rule isQuarters_value)

lemma roundTo53_scaled:
  assumes "0 < n" "n < 2 ^ 53"
  shows "roundTo53 (n * 2 ^ j) e = normalise n (e + int j)"
proof -
  define m where "m = n * 2 ^ j"
  define k where "k = bitLength \<bar>m\<bar> - 53"
  have mpos: "0 < m"
    using assms by (simp add: m_def)
  have "m < 2 ^ 53 * 2 ^ j"
    using assms by (simp add: m_def)
  then have "\<bar>m\<bar> < 2 ^ (53 + j)"
    using mpos by (simp add: power_add)
  then have "bitLength \<bar>m\<bar> \<le> 53 + j"
    by (rule bitLength_bound)
  then have k: "k \<le> j"
    by (simp add: k_def)
  then have split: "(2::int) ^ j = 2 ^ (j - k) * 2 ^ k"
    by (simp flip: power_add)
  then have m_split: "\<bar>m\<bar> = n * 2 ^ (j - k) * 2 ^ k"
    using mpos by (simp add: m_def)
  then have "roundHalfEven \<bar>m\<bar> k = \<bar>m\<bar> div 2 ^ k"
    by (intro roundHalfEven_exact) simp
  also have "\<dots> = n * 2 ^ (j - k)"
    unfolding m_split by simp
  finally have r: "roundHalfEven \<bar>m\<bar> k = n * 2 ^ (j - k)" .
  have "sgn m = 1"
    using mpos by simp
  then have "roundTo53 m e = normalise (n * 2 ^ (j - k)) (e + int k)"
    by (simp add: roundTo53_def r Let_def k_def [symmetric])
  also have "\<dots> = normalise n (e + int k + int (j - k))"
    using assms by (intro normalise_shift) simp
  also have "e + int k + int (j - k) = e + int j"
    using k by simp
  finally show ?thesis
    by (simp add: m_def)
qed

lemma decimalNumber_quarter:
  assumes "0 \<le> q" "q < 2 ^ 53"
  shows "decimalNumber (25 * q) = quarterNumber q"
proof (cases "q = 0")
  case True
  then show ?thesis
    by (simp add: decimalNumber_def roundTo53_small normalise_zero quarterNumber_def)
next
  case False
  with assms have pos: "0 < q" by simp
  have scaled: "\<bar>25 * q\<bar> * 2 ^ 64 = 100 * (q * 2 ^ 62)"
    using pos by simp
  have "decimalNumber (25 * q) = roundTo53 (2 * (q * 2 ^ 62)) (- 65)"
    unfolding decimalNumber_def scaled using pos by simp
  also have "2 * (q * 2 ^ 62) = q * 2 ^ 63"
    by simp
  also have "roundTo53 (q * 2 ^ 63) (- 65) = normalise q (- 65 + int 63)"
    using pos assms(2) by (rule roundTo53_scaled)
  finally show ?thesis
    by (simp add: quarterNumber_def)
qed

subsection \<open>The same grouping in two arithmetics\<close>

lemma map_of_liftNested: "map_of (liftNested f nested) j = map_option f (map_of nested j)"
  by (induction nested) (auto simp: liftNested_def)

lemma mapSet_liftNested: "mapSet j (f v) (liftNested f nested) = liftNested f (mapSet j v nested)"
  by (induction nested) (auto simp: liftNested_def)

lemma getOrZero_liftNested: "f 0 = 0 \<Longrightarrow> getOrZero j (liftNested f nested) = f (getOrZero j nested)"
  by (cases "map_of nested j") (simp_all add: getOrZero_def mapGet_def map_of_liftNested)

lemma map_of_liftGroups:
  "map_of (liftGroups f groups) k =
     map_option (\<lambda>g. (f (fst g), liftNested f (snd g))) (map_of groups k)"
  by (induction groups) (auto simp: liftGroups_def)

lemma mapSet_liftGroups:
  "mapSet k (f t, liftNested f nested) (liftGroups f groups) = liftGroups f (mapSet k (t, nested) groups)"
  by (induction groups) (auto simp: liftGroups_def)

lemma map_of_bounded:
  "groupsBounded B groups \<Longrightarrow> map_of groups k = Some g \<Longrightarrow>
   0 \<le> fst g \<and> fst g \<le> B \<and> (\<forall>p \<in> set (snd g). 0 \<le> snd p \<and> snd p \<le> B)"
  by (force simp: groupsBounded_def dest: map_of_SomeD)

lemma getOrZero_bounded:
  "\<forall>p \<in> set nested. 0 \<le> snd p \<and> snd p \<le> B \<Longrightarrow> 0 \<le> B \<Longrightarrow>
   0 \<le> getOrZero j nested \<and> getOrZero j nested \<le> (B::int)"
  by (cases "map_of nested j") (force simp: getOrZero_def mapGet_def dest: map_of_SomeD)+

lemma addToGroup_lift:
  fixes f :: "int \<Rightarrow> 'n::{zero,plus}"
  assumes f0: "f 0 = 0"
    and fadd: "\<And>a b. 0 \<le> a \<Longrightarrow> 0 \<le> b \<Longrightarrow> a + b < L \<Longrightarrow> f a + f b = f (a + b)"
    and bounded: "groupsBounded B groups" and B: "0 \<le> B" and x: "0 \<le> x" and small: "B + x < L"
  shows "addToGroup k j (f x) (liftGroups f groups) = liftGroups f (addToGroup k j x groups)"
proof (cases "map_of groups k")
  case None
  have "0 + f x = f (0 + x)"
    using fadd [of 0 x] f0 x B small by simp
  then have "mapSet k (0 + f x, [(j, 0 + f x)]) (liftGroups f groups) =
             liftGroups f (mapSet k (0 + x, [(j, 0 + x)]) groups)"
    using mapSet_liftGroups [of k f "0 + x" "[(j, 0 + x)]" groups]
    by (simp add: liftNested_def)
  with None show ?thesis
    by (simp add: addToGroup_eq map_of_liftGroups)
next
  case (Some g)
  from map_of_bounded [OF bounded Some]
  have t: "0 \<le> fst g" "fst g \<le> B" and n: "\<forall>p \<in> set (snd g). 0 \<le> snd p \<and> snd p \<le> B"
    by simp_all
  from getOrZero_bounded [OF n B]
  have a: "0 \<le> getOrZero j (snd g)" "getOrZero j (snd g) \<le> B"
    by simp_all
  have 1: "f (fst g) + f x = f (fst g + x)"
    using t x small by (intro fadd) simp_all
  have 2: "getOrZero j (liftNested f (snd g)) + f x = f (getOrZero j (snd g) + x)"
    using a x small by (simp add: getOrZero_liftNested [of f, OF f0] fadd)
  show ?thesis
    using Some
    by (simp add: addToGroup_eq map_of_liftGroups 1 2 mapSet_liftNested mapSet_liftGroups)
qed

lemma addToGroup_bounded:
  assumes "groupsBounded B groups" "0 \<le> B" "0 \<le> x"
  shows "groupsBounded (B + x) (addToGroup k j x groups)"
proof (cases "map_of groups k")
  case None
  have "g \<in> set (mapSet k (0 + x, [(j, 0 + x)]) groups) \<Longrightarrow>
        0 \<le> fst (snd g) \<and> fst (snd g) \<le> B + x \<and>
        (\<forall>p \<in> set (snd (snd g)). 0 \<le> snd p \<and> snd p \<le> B + x)" for g
    using assms by (auto dest!: mapSet_entry simp: groupsBounded_def) force+
  with None show ?thesis
    by (simp add: addToGroup_eq groupsBounded_def)
next
  case (Some old)
  from map_of_bounded [OF assms(1) Some]
  have t: "0 \<le> fst old" "fst old \<le> B" and n: "\<forall>p \<in> set (snd old). 0 \<le> snd p \<and> snd p \<le> B"
    by simp_all
  from getOrZero_bounded [OF n assms(2)]
  have a: "0 \<le> getOrZero j (snd old)" "getOrZero j (snd old) \<le> B"
    by simp_all
  have nested: "p \<in> set (mapSet j (getOrZero j (snd old) + x) (snd old)) \<Longrightarrow>
                0 \<le> snd p \<and> snd p \<le> B + x" for p
    using n a assms(3) by (auto dest!: mapSet_entry)
  have "g \<in> set (mapSet k (fst old + x, mapSet j (getOrZero j (snd old) + x) (snd old)) groups) \<Longrightarrow>
        0 \<le> fst (snd g) \<and> fst (snd g) \<le> B + x \<and>
        (\<forall>p \<in> set (snd (snd g)). 0 \<le> snd p \<and> snd p \<le> B + x)" for g
  proof -
    assume "g \<in> set (mapSet k (fst old + x, mapSet j (getOrZero j (snd old) + x) (snd old)) groups)"
    then consider "g = (k, fst old + x, mapSet j (getOrZero j (snd old) + x) (snd old))"
      | "g \<in> set groups"
      by (auto dest!: mapSet_entry)
    then show ?thesis
    proof cases
      case 1
      with t assms(3) nested show ?thesis by auto
    next
      case 2
      with assms show ?thesis by (force simp: groupsBounded_def)
    qed
  qed
  with Some show ?thesis
    by (simp add: addToGroup_eq groupsBounded_def)
qed

lemma foldl_addToGroup_lift:
  fixes f :: "int \<Rightarrow> 'n::{zero,plus}"
  assumes f0: "f 0 = 0"
    and fadd: "\<And>a b. 0 \<le> a \<Longrightarrow> 0 \<le> b \<Longrightarrow> a + b < L \<Longrightarrow> f a + f b = f (a + b)"
  shows "groupsBounded B groups \<Longrightarrow> 0 \<le> B \<Longrightarrow> \<forall>e \<in> set es. 0 \<le> amt e \<Longrightarrow>
         B + sum_list (map amt es) < L \<Longrightarrow>
         foldl (\<lambda>gs e. addToGroup (key e) (inner e) (f (amt e)) gs) (liftGroups f groups) es =
         liftGroups f (foldl (\<lambda>gs e. addToGroup (key e) (inner e) (amt e) gs) groups es)"
proof (induction es arbitrary: groups B)
  case Nil
  then show ?case by simp
next
  case (Cons e es)
  from Cons.prems have e: "0 \<le> amt e" and rest: "\<forall>e \<in> set es. 0 \<le> amt e"
    by simp_all
  then have "0 \<le> sum_list (map amt es)"
    by (intro sum_list_nonneg) auto
  with Cons.prems(4) have small: "B + amt e < L"
    by simp
  have step: "addToGroup (key e) (inner e) (f (amt e)) (liftGroups f groups) =
              liftGroups f (addToGroup (key e) (inner e) (amt e) groups)"
    using f0 fadd Cons.prems(1,2) e small by (rule addToGroup_lift)
  have "groupsBounded (B + amt e) (addToGroup (key e) (inner e) (amt e) groups)"
    using Cons.prems(1,2) e by (rule addToGroup_bounded)
  from Cons.IH [OF this _ rest] Cons.prems(2,4) e show ?case
    by (simp add: step add.assoc)
qed

lemma mapSet_sum:
  fixes x :: "'n::comm_monoid_add"
  shows "sum_list (map snd (mapSet j (getOrZero j nested + x) nested)) =
         sum_list (map snd nested) + x"
proof (induction nested)
  case Nil
  then show ?case by (simp add: getOrZero_def mapGet_def)
next
  case (Cons p nested)
  show ?case
  proof (cases "fst p = j")
    case True
    then show ?thesis
      by (simp add: getOrZero_def mapGet_def ac_simps)
  next
    case False
    then have "getOrZero j (p # nested) = getOrZero j nested"
      by (simp add: getOrZero_def mapGet_def)
    with False Cons.IH show ?thesis
      by (simp add: ac_simps)
  qed
qed

lemma addToGroup_summed:
  fixes x :: "'n::comm_monoid_add"
  assumes "groupsSummed groups"
  shows "groupsSummed (addToGroup k j x groups)"
proof (cases "map_of groups k")
  case None
  have "g \<in> set (mapSet k (0 + x, [(j, 0 + x)]) groups) \<Longrightarrow>
        fst (snd g) = sum_list (map snd (snd (snd g)))" for g
    using assms by (auto dest!: mapSet_entry simp: groupsSummed_def)
  with None show ?thesis
    by (simp add: addToGroup_eq groupsSummed_def)
next
  case (Some old)
  then have "(k, old) \<in> set groups"
    by (rule map_of_SomeD)
  with assms have old: "fst old = sum_list (map snd (snd old))"
    by (force simp: groupsSummed_def)
  have "g \<in> set (mapSet k (fst old + x, mapSet j (getOrZero j (snd old) + x) (snd old)) groups) \<Longrightarrow>
        fst (snd g) = sum_list (map snd (snd (snd g)))" for g
    using assms old by (auto dest!: mapSet_entry simp: groupsSummed_def mapSet_sum)
  with Some show ?thesis
    by (simp add: addToGroup_eq groupsSummed_def)
qed

lemma foldl_addToGroup_summed:
  fixes amt :: "'e \<Rightarrow> 'n::comm_monoid_add"
  shows "groupsSummed groups \<Longrightarrow>
         groupsSummed (foldl (\<lambda>gs e. addToGroup (key e) (inner e) (amt e) gs) groups es)"
  by (induction es arbitrary: groups) (simp_all add: addToGroup_summed)

lemma insertBy_sum:
  fixes f :: "'a \<Rightarrow> 'n::comm_monoid_add"
  shows "sum_list (map f (insertBy after x ys)) = f x + sum_list (map f ys)"
  by (induction ys) (simp_all add: ac_simps)

lemma sortBy_sum:
  fixes f :: "'a \<Rightarrow> 'n::comm_monoid_add"
  shows "sum_list (map f (sortBy after xs)) = sum_list (map f xs)"
  by (induction xs) (simp_all add: sortBy_def insertBy_sum)

subsection \<open>Amounts in quarters of a unit\<close>

lemma quarterNumber_additive:
  "0 \<le> a \<Longrightarrow> 0 \<le> b \<Longrightarrow> a + b < 2 ^ 53 \<Longrightarrow> quarterNumber a + quarterNumber b = quarterNumber (a + b)"
  by (rule quarterNumber_plus) simp

lemma decimalNumber_quarters:
  assumes "0 \<le> c" "25 dvd c" "c < 25 * 2 ^ 53"
  shows "decimalNumber c = quarterNumber (quarters c)"
proof -
  from assms(2) obtain n where c: "c = 25 * n" ..
  with assms(1,3) have "0 \<le> n" "n < 2 ^ 53"
    by simp_all
  then have "decimalNumber (25 * n) = quarterNumber n"
    by (rule decimalNumber_quarter)
  with c show ?thesis
    by (simp add: quarters_def)
qed

lemma groups_in_doubles:
  assumes quarter: "\<forall>e \<in> set expenses. 0 \<le> amount e \<and> 25 dvd amount e"
    and bound: "sum_list (map amount expenses) < 25 * 2 ^ 53"
  shows "foldl (\<lambda>gs e. addToGroup (key e) (inner e) (decimalNumber (amount e)) gs) [] expenses =
         liftGroups quarterNumber
           (foldl (\<lambda>gs e. addToGroup (key e) (inner e) (quarters (amount e)) gs) [] expenses)"
proof -
  have each: "amount e < 25 * 2 ^ 53" if "e \<in> set expenses" for e
  proof -
    have "amount e \<le> sum_list (map amount expenses)"
      using that quarter by (intro member_le_sum_list) auto
    with bound show ?thesis by simp
  qed
  have "foldl (\<lambda>gs e. addToGroup (key e) (inner e) (decimalNumber (amount e)) gs) [] expenses =
        foldl (\<lambda>gs e. addToGroup (key e) (inner e) (quarterNumber (quarters (amount e))) gs) [] expenses"
    using quarter each by (intro foldl_cong refl) (simp add: decimalNumber_quarters)
  also have "\<dots> = foldl (\<lambda>gs e. addToGroup (key e) (inner e) (quarterNumber (quarters (amount e))) gs)
                      (liftGroups quarterNumber []) expenses"
    by (simp add: liftGroups_def)
  also have "\<dots> = liftGroups quarterNumber
           (foldl (\<lambda>gs e. addToGroup (key e) (inner e) (quarters (amount e)) gs) [] expenses)"
  proof (rule foldl_addToGroup_lift [where L = "2 ^ 53" and B = 0])
    show "quarterNumber 0 = 0"
      by (rule quarterNumber_zero)
    show "quarterNumber a + quarterNumber b = quarterNumber (a + b)"
      if "0 \<le> a" "0 \<le> b" "a + b < 2 ^ 53" for a b
      using that by (rule quarterNumber_additive)
    show "groupsBounded 0 []"
      by (simp add: groupsBounded_def)
    show "(0::int) \<le> 0"
      by simp
    show "\<forall>e \<in> set expenses. 0 \<le> quarters (amount e)"
      using quarter by (simp add: quarters_def pos_imp_zdiv_nonneg_iff)
    have "sum_list (map (\<lambda>e. quarters (amount e)) expenses) * 25 = sum_list (map amount expenses)"
      using quarter by (induction expenses) (auto simp: quarters_def algebra_simps)
    with bound show "0 + sum_list (map (\<lambda>e. quarters (amount e)) expenses) < 2 ^ 53"
      by simp
  qed
  finally show ?thesis .
qed


lemma quarters_sum_list:
  "sum_list (map (\<lambda>p. of_int (snd p) / 4) nested) = (of_int (sum_list (map snd nested)) / 4 :: rat)"
  by (induction nested) (simp_all add: add_divide_distrib)

lemma lifted_group_total:
  assumes "groupsSummed groups" and "g \<in> set (liftGroups quarterNumber groups)"
  shows "valueOf (fst (snd g)) = sum_list (map (\<lambda>p. valueOf (snd p)) (snd (snd g)))"
proof -
  from assms(2) obtain h where h: "h \<in> set groups"
    and g: "g = (fst h, quarterNumber (fst (snd h)), liftNested quarterNumber (snd (snd h)))"
    by (auto simp: liftGroups_def)
  from assms(1) h have "fst (snd h) = sum_list (map snd (snd (snd h)))"
    by (simp add: groupsSummed_def)
  then have "valueOf (quarterNumber (fst (snd h))) =
             sum_list (map (\<lambda>p. valueOf (quarterNumber (snd p))) (snd (snd h)))"
    by (simp add: valueOf_quarterNumber quarters_sum_list)
  with g show ?thesis
    by (simp add: liftNested_def o_def)
qed

lemma grouped_total:
  assumes quarter: "\<forall>e \<in> set expenses. 0 \<le> amount e \<and> 25 dvd amount e"
    and bound: "sum_list (map amount expenses) < 25 * 2 ^ 53"
    and g: "g \<in> set (foldl (\<lambda>gs e. addToGroup (key e) (inner e) (decimalNumber (amount e)) gs)
                       [] expenses)"
  shows "valueOf (fst (snd g)) = sum_list (map (\<lambda>p. valueOf (snd p)) (snd (snd g)))"
proof -
  have "groupsSummed
          (foldl (\<lambda>gs e. addToGroup (key e) (inner e) (quarters (amount e)) gs) [] expenses)"
    by (rule foldl_addToGroup_summed) (simp add: groupsSummed_def)
  moreover from g have "g \<in> set (liftGroups quarterNumber
               (foldl (\<lambda>gs e. addToGroup (key e) (inner e) (quarters (amount e)) gs) [] expenses))"
    by (simp only: groups_in_doubles [OF quarter bound])
  ultimately show ?thesis
    by (rule lifted_group_total)
qed

lemma categoryBreakdownOf_sum:
  "sum_list (map (\<lambda>c. valueOf (ca_amount c)) (categoryBreakdownOf nested)) =
   sum_list (map (\<lambda>p. valueOf (snd p)) nested)"
  by (simp add: categoryBreakdownOf_def o_def split_def)

lemma monthlyBreakdownOf_sum:
  "sum_list (map (\<lambda>m. valueOf (ma_amount m)) (monthlyBreakdownOf nested)) =
   sum_list (map (\<lambda>p. valueOf (snd p)) nested)"
  by (simp add: monthlyBreakdownOf_def sortBy_sum o_def split_def)

lemma monthly_total_exact:
  assumes "\<forall>e \<in> set expenses. 0 \<le> amount e \<and> 25 dvd amount e"
    and "sum_list (map amount expenses) < 25 * 2 ^ 53"
    and "g \<in> set (processMonthlyTrends decimalNumber expenses)"
  shows "valueOf (mt_totalAmount g) =
         sum_list (map (\<lambda>c. valueOf (ca_amount c)) (mt_categoryBreakdown g))"
proof -
  from assms(3) obtain h where h: "h \<in> set (monthlyMap decimalNumber expenses)"
    and g: "mt_totalAmount g = fst (snd h)"
      "mt_categoryBreakdown g = categoryBreakdownOf (snd (snd h))"
    by (auto simp: processMonthlyTrends_def sortBy_set)
  from assms(1,2) h [unfolded monthlyMap_def]
  have "valueOf (fst (snd h)) = sum_list (map (\<lambda>p. valueOf (snd p)) (snd (snd h)))"
    by (rule grouped_total)
  with g show ?thesis
    by (simp add: categoryBreakdownOf_sum)
qed

lemma yearly_total_exact:
  assumes "\<forall>e \<in> set expenses. 0 \<le> amount e \<and> 25 dvd amount e"
    and "sum_list (map amount expenses) < 25 * 2 ^ 53"
    and "g \<in> set (processYearlyTrends decimalNumber expenses)"
  shows "valueOf (yt_totalAmount g) =
         sum_list (map (\<lambda>c. valueOf (ca_amount c)) (yt_categoryBreakdown g))"
proof -
  from assms(3) obtain h where h: "h \<in> set (yearlyMap decimalNumber expenses)"
    and g: "yt_totalAmount g = fst (snd h)"
      "yt_categoryBreakdown g = categoryBreakdownOf (snd (snd h))"
    by (auto simp: processYearlyTrends_def sortBy_set)
  from assms(1,2) h [unfolded yearlyMap_def]
  have "valueOf (fst (snd h)) = sum_list (map (\<lambda>p. valueOf (snd p)) (snd (snd h)))"
    by (rule grouped_total)
  with g show ?thesis
    by (simp add: categoryBreakdownOf_sum)
qed

lemma category_total_exact:
  assumes "\<forall>e \<in> set expenses. 0 \<le> amount e \<and> 25 dvd amount e"
    and "sum_list (map amount expenses) < 25 * 2 ^ 53"
    and "g \<in> set (processCategoryTrends decimalNumber expenses)"
  shows "valueOf (ct_totalAmount g) =
         sum_list (map (\<lambda>m. valueOf (ma_amount m)) (ct_monthlyBreakdown g))"
proof -
  from assms(3) obtain h where h: "h \<in> set (categoryMap decimalNumber expenses)"
    and g: "ct_totalAmount g = fst (snd h)"
      "ct_monthlyBreakdown g = monthlyBreakdownOf (snd (snd h))"
    by (auto simp: processCategoryTrends_def sortBy_set)
  from assms(1,2) h [unfolded categoryMap_def]
  have "valueOf (fst (snd h)) = sum_list (map (\<lambda>p. valueOf (snd p)) (snd (snd h)))"
    by (rule grouped_total)
  with g show ?thesis
    by (simp add: monthlyBreakdownOf_sum)
qed


subsection \<open>Two runs of the grouping, for any arithmetic\<close>

lemma monthly_quarter_groups:
  fixes num :: "int \<Rightarrow> 'n::{zero,plus,equal}"
  shows "processMonthlyTrends num quarterExpenses =
     [\<lparr>mt_month = Some 1, mt_year = Some 2024, mt_totalAmount = 0 + num 1025 + num 550,
       mt_categoryBreakdown =
         [\<lparr>ca_category = ''Salaries'', ca_amount = 0 + num 1025\<rparr>,
          \<lparr>ca_category = ''SoftwareTools'', ca_amount = 0 + num 550\<rparr>]\<rparr>,
      \<lparr>mt_month = Some 2, mt_year = Some 2024, mt_totalAmount = 0 + num 2075,
       mt_categoryBreakdown = [\<lparr>ca_category = ''Salaries'', ca_amount = 0 + num 2075\<rparr>]\<rparr>]"
  by code_simp

lemma yearly_drift_groups:
  fixes num :: "int \<Rightarrow> 'n::{zero,plus,equal}"
  shows "processYearlyTrends num driftExpenses =
     [\<lparr>yt_year = 2024, yt_totalAmount = 0 + num 10 + num 20 + num 40,
       yt_categoryBreakdown =
         [\<lparr>ca_category = ''Salaries'', ca_amount = 0 + num 10 + num 40\<rparr>,
          \<lparr>ca_category = ''Marketing'', ca_amount = 0 + num 20\<rparr>]\<rparr>]"
  by code_simp

lemma quarter_sums:
  "0 + decimalNumber 1025 = Num 41 (- 2)"
  "Num 41 (- 2) + decimalNumber 550 = Num 63 (- 2)"
  "0 + decimalNumber 550 = Num 11 (- 1)"
  "0 + decimalNumber 2075 = Num 83 (- 2)"
  by code_simp+

lemma drift_sums:
  "0 + decimalNumber 10 + decimalNumber 20 + decimalNumber 40 = Num 6305039478318695 (- 53)"
  "0 + decimalNumber 10 + decimalNumber 40 = Num 1 (- 1)"
  "0 + decimalNumber 20 = Num 3602879701896397 (- 54)"
  "0 + Num 1 (- 1) + Num 3602879701896397 (- 54) = Num 3152519739159347 (- 52)"
  by code_simp+

subsection \<open>The totals and the breakdowns\<close>

text \<open>
  Claim C1, as amended. Let every amount be a multiple of 0.25 that is not negative (the
  amounts of two decimals that a double holds exactly), and let the amounts add up to less
  than \<open>2 ^ 53\<close> quarters. Then in each of the three groupings the total of every group
  is, as a number, exactly the sum of the amounts of its breakdown.
\<close>

theorem exact_amounts_sum_exactly:
  assumes "\<forall>e \<in> set expenses. 0 \<le> amount e \<and> 25 dvd amount e"
    and "sum_list (map amount expenses) < 25 * 2 ^ 53"
  shows "(\<forall>g \<in> set (processMonthlyTrends decimalNumber expenses).
            valueOf (mt_totalAmount g) =
            sum_list (map (\<lambda>c. valueOf (ca_amount c)) (mt_categoryBreakdown g)))
       \<and> (\<forall>g \<in> set (processYearlyTrends decimalNumber expenses).
            valueOf (yt_totalAmount g) =
            sum_list (map (\<lambda>c. valueOf (ca_amount c)) (yt_categoryBreakdown g)))
       \<and> (\<forall>g \<in> set (processCategoryTrends decimalNumber expenses).
            valueOf (ct_totalAmount g) =
            sum_list (map (\<lambda>m. valueOf (ma_amount m)) (ct_monthlyBreakdown g)))"
proof (intro conjI ballI)
  fix g assume "g \<in> set (processMonthlyTrends decimalNumber expenses)"
  with assms show "valueOf (mt_totalAmount g) =
      sum_list (map (\<lambda>c. valueOf (ca_amount c)) (mt_categoryBreakdown g))"
    by (rule monthly_total_exact)
next
  fix g assume "g \<in> set (processYearlyTrends decimalNumber expenses)"
  with assms show "valueOf (yt_totalAmount g) =
      sum_list (map (\<lambda>c. valueOf (ca_amount c)) (yt_categoryBreakdown g))"
    by (rule yearly_total_exact)
next
  fix g assume "g \<in> set (processCategoryTrends decimalNumber expenses)"
  with assms show "valueOf (ct_totalAmount g) =
      sum_list (map (\<lambda>m. valueOf (ma_amount m)) (ct_monthlyBreakdown g))"
    by (rule category_total_exact)
qed

theorem exact_amounts_sum_exactly_witness:
  "map (\<lambda>g. valueOf (mt_totalAmount g)) (processMonthlyTrends decimalNumber quarterExpenses) =
     [63 / 4, 83 / 4]
   \<and> map (\<lambda>g. sum_list (map (\<lambda>c. valueOf (ca_amount c)) (mt_categoryBreakdown g)))
        (processMonthlyTrends decimalNumber quarterExpenses) = [63 / 4, 83 / 4]"
proof -
  have exact: "\<forall>e \<in> set quarterExpenses. 0 \<le> amount e \<and> 25 dvd amount e"
    by (simp add: quarterExpenses_def mkCost_def)
  have small: "sum_list (map amount quarterExpenses) < 25 * 2 ^ 53"
    by (simp add: quarterExpenses_def mkCost_def)
  have totals: "map (\<lambda>g. valueOf (mt_totalAmount g))
                  (processMonthlyTrends decimalNumber quarterExpenses) = [63 / 4, 83 / 4]"
    by (simp add: monthly_quarter_groups quarter_sums valueOf_def)
  from exact_amounts_sum_exactly [OF exact small]
  have "\<forall>g \<in> set (processMonthlyTrends decimalNumber quarterExpenses).
          valueOf (mt_totalAmount g) =
          sum_list (map (\<lambda>c. valueOf (ca_amount c)) (mt_categoryBreakdown g))"
    by (rule conjunct1)
  then have "map (\<lambda>g. valueOf (mt_totalAmount g))
               (processMonthlyTrends decimalNumber quarterExpenses) =
             map (\<lambda>g. sum_list (map (\<lambda>c. valueOf (ca_amount c)) (mt_categoryBreakdown g)))
               (processMonthlyTrends decimalNumber quarterExpenses)"
    by (simp only: map_eq_conv)
  with totals show ?thesis
    by simp
qed

text \<open>
  The claim as stated covers every list of records. On \<open>driftExpenses\<close> the yearly
  total is 0.1 + 0.2 + 0.4 in doubles, 0.7000000000000001, and the breakdown holds 0.5 and
  the double nearest to 0.2: they add up to the double 0.7, their exact sum is another
  number than the total, and the total is not 0.70.
\<close>

theorem trend_total_drifts_counterexample:
  "processYearlyTrends decimalNumber driftExpenses =
     [\<lparr>yt_year = 2024, yt_totalAmount = Num 6305039478318695 (- 53),
       yt_categoryBreakdown =
         [\<lparr>ca_category = ''Salaries'', ca_amount = Num 1 (- 1)\<rparr>,
          \<lparr>ca_category = ''Marketing'', ca_amount = Num 3602879701896397 (- 54)\<rparr>]\<rparr>]
   \<and> map (\<lambda>g. valueOf (yt_totalAmount g)) (processYearlyTrends decimalNumber driftExpenses) \<noteq>
       map (\<lambda>g. sum_list (map (\<lambda>c. valueOf (ca_amount c)) (yt_categoryBreakdown g)))
         (processYearlyTrends decimalNumber driftExpenses)
   \<and> 0 + Num 1 (- 1) + Num 3602879701896397 (- 54) = Num 3152519739159347 (- 52)
   \<and> valueOf (Num 6305039478318695 (- 53)) \<noteq> 70 / 100"
  by (simp add: yearly_drift_groups drift_sums valueOf_def)


end
